theory Spec2Isabelle
  imports Main
begin

section \<open>The board and its cells\<close>

text \<open>
  The solver of \<^verbatim>\<open>src/solver.py\<close> works on a Python \<^verbatim>\<open>list[list[str]]\<close>: a list of rows,
  each a list of cell strings, the empty string marking an empty cell. The board is a
  value here, every row a list of its own (the grid that \<^verbatim>\<open>get_board\<close> of
  \<^verbatim>\<open>src/main.py\<close> builds has nine fresh row lists, no two of them the same object).
  Indices are Python integers: a negative index counts from the end of the list, and an
  index outside the list raises \<^verbatim>\<open>IndexError\<close>. \<open>locate\<close> resolves \<^verbatim>\<open>board[i][j]\<close> to
  the position it reads or writes: the row first, then the column within that row.
\<close>

datatype error = IndexError

type_synonym board = "string list list"

definition index_of :: "nat \<Rightarrow> int \<Rightarrow> nat option" where
  "index_of n i =
     (if 0 \<le> i \<and> i < int n then Some (nat i)
      else if i < 0 \<and> - int n \<le> i then Some (nat (i + int n))
      else None)"

definition locate :: "board \<Rightarrow> int \<Rightarrow> int \<Rightarrow> (nat \<times> nat) option" where
  "locate board i j =
     (case index_of (length board) i of
        None \<Rightarrow> None
      | Some r \<Rightarrow>
          (case index_of (length (board ! r)) j of
             None \<Rightarrow> None
           | Some c \<Rightarrow> Some (r, c)))"

definition upd :: "board \<Rightarrow> nat \<Rightarrow> nat \<Rightarrow> string \<Rightarrow> board" where
  "upd board r c v = board[r := (board ! r)[c := v]]"

definition get_cell :: "board \<Rightarrow> int \<Rightarrow> int \<Rightarrow> error + string" where
  "get_cell board i j =
     (case locate board i j of
        None \<Rightarrow> Inl IndexError
      | Some (r, c) \<Rightarrow> Inr (board ! r ! c))"

definition set_cell :: "board \<Rightarrow> int \<Rightarrow> int \<Rightarrow> string \<Rightarrow> error + board" where
  "set_cell board i j v =
     (case locate board i j of
        None \<Rightarrow> Inl IndexError
      | Some (r, c) \<Rightarrow> Inr (upd board r c v))"

text \<open>Python's \<^verbatim>\<open>str\<close> on an integer: its decimal digits, a minus sign first when negative.\<close>

fun str_nat :: "nat \<Rightarrow> string" where
  "str_nat n =
     (if n < 10 then [''0123456789'' ! n]
      else str_nat (n div 10) @ [''0123456789'' ! (n mod 10)])"

definition str :: "int \<Rightarrow> string" where
  "str i = (if i < 0 then CHR ''-'' # str_nat (nat (- i)) else str_nat (nat i))"

section \<open>find_empty\<close>

text \<open>
  \<^verbatim>\<open>for i in range(9): for j in range(9): if board[i][j] == '': return i, j\<close>, then
  \<^verbatim>\<open>return None\<close>. The inner loop over the columns still to visit gives \<open>None\<close> when it
  ends without returning.
\<close>

fun find_empty_cols :: "board \<Rightarrow> int \<Rightarrow> int list \<Rightarrow> error + (int \<times> int) option" where
  "find_empty_cols board i [] = Inr None"
| "find_empty_cols board i (j # js) =
     (case get_cell board i j of
        Inl e \<Rightarrow> Inl e
      | Inr v \<Rightarrow> if v = [] then Inr (Some (i, j)) else find_empty_cols board i js)"

fun find_empty_rows :: "board \<Rightarrow> int list \<Rightarrow> error + (int \<times> int) option" where
  "find_empty_rows board [] = Inr None"
| "find_empty_rows board (i # is) =
     (case find_empty_cols board i [0..8] of
        Inl e \<Rightarrow> Inl e
      | Inr (Some cell) \<Rightarrow> Inr (Some cell)
      | Inr None \<Rightarrow> find_empty_rows board is)"

definition find_empty :: "board \<Rightarrow> error + (int \<times> int) option" where
  "find_empty board = find_empty_rows board [0..8]"

section \<open>is_valid\<close>

text \<open>
  The board is threaded through \<open>is_valid\<close> as the state it runs on, so that what the
  call leaves behind can be stated. The first loop reads \<^verbatim>\<open>board[row][i]\<close> and, only when
  that is not the digit, \<^verbatim>\<open>board[i][col]\<close>. A loop gives \<open>Some v\<close> when it returned \<open>v\<close> and
  \<open>None\<close> when it ran to its end.
\<close>

fun is_valid_lines ::
  "board \<Rightarrow> int \<Rightarrow> int \<Rightarrow> string \<Rightarrow> int list \<Rightarrow> (error + bool option) \<times> board" where
  "is_valid_lines board row col digit [] = (Inr None, board)"
| "is_valid_lines board row col digit (i # is) =
     (case get_cell board row i of
        Inl e \<Rightarrow> (Inl e, board)
      | Inr a \<Rightarrow>
          if a = digit then (Inr (Some False), board)
          else (case get_cell board i col of
                  Inl e \<Rightarrow> (Inl e, board)
                | Inr b \<Rightarrow>
                    if b = digit then (Inr (Some False), board)
                    else is_valid_lines board row col digit is))"

fun is_valid_box_cols ::
  "board \<Rightarrow> int \<Rightarrow> string \<Rightarrow> int list \<Rightarrow> (error + bool option) \<times> board" where
  "is_valid_box_cols board i digit [] = (Inr None, board)"
| "is_valid_box_cols board i digit (j # js) =
     (case get_cell board i j of
        Inl e \<Rightarrow> (Inl e, board)
      | Inr a \<Rightarrow>
          if a = digit then (Inr (Some False), board)
          else is_valid_box_cols board i digit js)"

fun is_valid_box ::
  "board \<Rightarrow> int list \<Rightarrow> int list \<Rightarrow> string \<Rightarrow> (error + bool option) \<times> board" where
  "is_valid_box board [] js digit = (Inr None, board)"
| "is_valid_box board (i # is) js digit =
     (case is_valid_box_cols board i digit js of
        (Inr None, board1) \<Rightarrow> is_valid_box board1 is js digit
      | (res, board1) \<Rightarrow> (res, board1))"

definition is_valid :: "board \<Rightarrow> int \<Rightarrow> int \<Rightarrow> string \<Rightarrow> (error + bool) \<times> board" where
  "is_valid board row col digit =
     (case is_valid_lines board row col digit [0..8] of
        (Inl e, board1) \<Rightarrow> (Inl e, board1)
      | (Inr (Some v), board1) \<Rightarrow> (Inr v, board1)
      | (Inr None, board1) \<Rightarrow>
          (let top_row = (row div 3) * 3;
               top_col = (col div 3) * 3
           in case is_valid_box board1 [top_row..top_row + 2] [top_col..top_col + 2] digit of
                (Inl e, board2) \<Rightarrow> (Inl e, board2)
              | (Inr (Some v), board2) \<Rightarrow> (Inr v, board2)
              | (Inr None, board2) \<Rightarrow> (Inr True, board2)))"

section \<open>Cell updates and the number of empty cells\<close>

text \<open>
  \<open>empties\<close> counts the cells holding the empty marker; \<open>rest board i j\<close> counts those
  other than the cell that \<^verbatim>\<open>board[i][j]\<close> addresses. The recursion of the solver descends
  along them.
\<close>

definition empties :: "board \<Rightarrow> nat" where
  "empties board = sum_list (map (\<lambda>row. count_list row []) board)"

definition rest :: "board \<Rightarrow> int \<Rightarrow> int \<Rightarrow> nat" where
  "rest board i j =
     (case locate board i j of None \<Rightarrow> empties board | Some (r, c) \<Rightarrow> empties (upd board r c ''x''))"

lemma index_of_less: "index_of n i = Some r \<Longrightarrow> r < n"
  by (auto simp: index_of_def split: if_splits)

lemma locate_bounds: "locate b i j = Some (r, c) \<Longrightarrow> r < length b \<and> c < length (b ! r)"
  by (auto simp: locate_def split: option.splits dest: index_of_less)

lemma length_upd [simp]: "length (upd b r c v) = length b"
  by (simp add: upd_def)

lemma upd_beyond: "length b \<le> r \<Longrightarrow> upd b r c v = b"
  by (simp add: upd_def list_update_beyond)

lemma length_upd_row [simp]: "length (upd b r c v ! k) = length (b ! k)"
  by (cases "r < length b"; cases "k = r") (simp_all add: upd_def list_update_beyond)

lemma locate_upd [simp]: "locate (upd b r c v) i j = locate b i j"
  by (simp add: locate_def split: option.splits)

lemma upd_upd [simp]: "upd (upd b r c v) r c w = upd b r c w"
  by (cases "r < length b") (simp_all add: upd_def list_update_beyond)

lemma nth_upd:
  "r < length b \<Longrightarrow> c < length (b ! r) \<Longrightarrow>
   upd b r c v ! i ! j = (if i = r \<and> j = c then v else b ! i ! j)"
  by (cases "i = r"; cases "j = c") (simp_all add: upd_def)

lemma upd_same: "r < length b \<Longrightarrow> c < length (b ! r) \<Longrightarrow> b ! r ! c = v \<Longrightarrow> upd b r c v = b"
  by (auto simp: upd_def list_update_same_conv)

lemma count_list_update:
  "c < length xs \<Longrightarrow>
   count_list (xs[c := v]) a + (if xs ! c = a then 1 else 0) = count_list xs a + (if v = a then 1 else 0)"
proof (induction xs arbitrary: c)
  case Nil
  then show ?case by simp
next
  case (Cons x xs)
  show ?case
  proof (cases c)
    case 0
    then show ?thesis by simp
  next
    case (Suc k)
    with Cons.prems have "k < length xs" by simp
    from Cons.IH [OF this] Suc show ?thesis by (simp split: if_splits)
  qed
qed

lemma sum_list_update_nat:
  "r < length (ns :: nat list) \<Longrightarrow> sum_list (ns[r := k]) + ns ! r = sum_list ns + k"
proof (induction ns arbitrary: r)
  case Nil
  then show ?case by simp
next
  case (Cons x xs)
  then show ?case by (cases r) auto
qed

lemma empties_upd:
  assumes "r < length b" and "c < length (b ! r)"
  shows "empties (upd b r c v) + (if b ! r ! c = [] then 1 else 0) = empties b + (if v = [] then 1 else 0)"
proof -
  let ?f = "\<lambda>row. count_list row []"
  have "map ?f (upd b r c v) = (map ?f b)[r := ?f ((b ! r)[c := v])]"
    by (simp add: upd_def map_update)
  then have "empties (upd b r c v) + ?f (b ! r) = empties b + ?f ((b ! r)[c := v])"
    using sum_list_update_nat [of r "map ?f b" "?f ((b ! r)[c := v])"] assms(1)
    by (simp add: empties_def)
  with count_list_update [OF assms(2), of v "[]"] show ?thesis
    by (auto split: if_splits)
qed

lemma str_nat_nonempty: "str_nat n \<noteq> []"
  by (subst str_nat.simps) simp

lemma str_nonempty [simp]: "str n \<noteq> []"
  by (simp add: str_def str_nat_nonempty)

lemma rest_less: "get_cell b i j = Inr [] \<Longrightarrow> rest b i j < empties b"
  using empties_upd [of _ b _ "''x''"]
  by (fastforce simp: get_cell_def rest_def split: option.splits dest: locate_bounds)

lemma rest_set_cell: "set_cell b i j v = Inr b2 \<Longrightarrow> v \<noteq> [] \<Longrightarrow> empties b2 = rest b i j"
proof -
  assume a: "set_cell b i j v = Inr b2" and v: "v \<noteq> []"
  then obtain r c where l: "locate b i j = Some (r, c)" and b2: "b2 = upd b r c v"
    by (auto simp: set_cell_def split: option.splits)
  from locate_bounds [OF l] have "r < length b" "c < length (b ! r)" by simp_all
  from empties_upd [OF this, of v] empties_upd [OF this, of "''x''"] v
  show ?thesis using l b2 by (simp add: rest_def split: if_splits)
qed

lemma rest_reset: "set_cell b3 i j v = Inr b4 \<Longrightarrow> rest b4 i j = rest b3 i j"
  by (auto simp: set_cell_def rest_def split: option.splits)

lemma find_empty_cols_Some:
  "find_empty_cols b i js = Inr (Some (r, c)) \<Longrightarrow> r = i \<and> c \<in> set js \<and> get_cell b r c = Inr []"
  by (induction js) (auto split: sum.splits if_splits)

lemma find_empty_rows_Some:
  "find_empty_rows b is = Inr (Some (r, c)) \<Longrightarrow>
   r \<in> set is \<and> c \<in> {0..8} \<and> get_cell b r c = Inr []"
  by (induction "is") (auto split: sum.splits option.splits dest!: find_empty_cols_Some)

lemma find_empty_Some:
  "find_empty b = Inr (Some (r, c)) \<Longrightarrow> r \<in> {0..8} \<and> c \<in> {0..8} \<and> get_cell b r c = Inr []"
  unfolding find_empty_def by (drule find_empty_rows_Some) simp

lemma is_valid_lines_frame: "snd (is_valid_lines b row col d is) = b"
  by (induction "is") (auto split: sum.splits)

lemma is_valid_box_cols_frame: "snd (is_valid_box_cols b i d js) = b"
  by (induction js) (auto split: sum.splits)

lemma is_valid_box_frame: "snd (is_valid_box b is js d) = b"
proof (induction "is")
  case Nil
  then show ?case by simp
next
  case (Cons i "is")
  obtain res b1 where e: "is_valid_box_cols b i d js = (res, b1)"
    by (cases "is_valid_box_cols b i d js")
  with is_valid_box_cols_frame [of b i d js] have "b1 = b" by simp
  with e Cons show ?case by (auto split: sum.splits option.splits)
qed

lemma is_valid_frame: "snd (is_valid b row col d) = b"
proof -
  obtain res b1 where e: "is_valid_lines b row col d [0..8] = (res, b1)"
    by (cases "is_valid_lines b row col d [0..8]")
  with is_valid_lines_frame [of b row col d "[0..8]"] have b1: "b1 = b" by simp
  obtain res2 b2 where e2:
    "is_valid_box b [row div 3 * 3..row div 3 * 3 + 2] [col div 3 * 3..col div 3 * 3 + 2] d = (res2, b2)"
    by (cases "is_valid_box b [row div 3 * 3..row div 3 * 3 + 2] [col div 3 * 3..col div 3 * 3 + 2] d")
  with is_valid_box_frame [of b _ _ d] have b2: "b2 = b" by (metis snd_conv)
  show ?thesis
    using e e2 b1 b2 by (simp add: is_valid_def Let_def split: sum.splits option.splits)
qed

lemma is_valid_board: "is_valid b row col d = (res, b1) \<Longrightarrow> b1 = b"
  using is_valid_frame [of b row col d] by simp

lemma set_cell_same: "get_cell b i j = Inr v \<Longrightarrow> set_cell b i j v = Inr b' \<Longrightarrow> b' = b"
  by (auto simp: get_cell_def set_cell_def upd_same split: option.splits dest: locate_bounds)

lemma set_cell_twice:
  "set_cell b i j v = Inr b2 \<Longrightarrow> set_cell b2 i j w = Inr b4 \<Longrightarrow> set_cell b i j w = Inr b4"
  by (auto simp: set_cell_def split: option.splits)

lemma set_cell_idem: "set_cell b i j v = Inr b2 \<Longrightarrow> set_cell b2 i j v = Inr b4 \<Longrightarrow> b4 = b2"
  by (auto simp: set_cell_def split: option.splits)

section \<open>solve_sudoku\<close>

text \<open>
  \<open>try_digits\<close> is the loop \<^verbatim>\<open>for digit in map(str, range(1, 10))\<close> of \<open>solve_sudoku\<close>
  over the integers still to try, with the \<^verbatim>\<open>return False\<close> that follows it. Both
  functions give the result (or the exception raised) and the board as they leave it.
\<close>

function solve_sudoku :: "board \<Rightarrow> (error + bool) \<times> board"
  and try_digits :: "board \<Rightarrow> int \<Rightarrow> int \<Rightarrow> int list \<Rightarrow> (error + bool) \<times> board" where
  "solve_sudoku board =
     (case find_empty board of
        Inl e \<Rightarrow> (Inl e, board)
      | Inr None \<Rightarrow> (Inr True, board)
      | Inr (Some (row, col)) \<Rightarrow> try_digits board row col [1..9])"
| "try_digits board row col [] = (Inr False, board)"
| "try_digits board row col (n # ns) =
     (case is_valid board row col (str n) of
        (Inl e, board1) \<Rightarrow> (Inl e, board1)
      | (Inr False, board1) \<Rightarrow> try_digits board1 row col ns
      | (Inr True, board1) \<Rightarrow>
          (case set_cell board1 row col (str n) of
             Inl e \<Rightarrow> (Inl e, board1)
           | Inr board2 \<Rightarrow>
               (case solve_sudoku board2 of
                  (Inl e, board3) \<Rightarrow> (Inl e, board3)
                | (Inr True, board3) \<Rightarrow> (Inr True, board3)
                | (Inr False, board3) \<Rightarrow>
                    (case set_cell board3 row col [] of
                       Inl e \<Rightarrow> (Inl e, board3)
                     | Inr board4 \<Rightarrow> try_digits board4 row col ns))))"
  by pat_completeness auto

text \<open>
  The loop goes on with the board that the recursive call hands back, so the recursion is
  nested: its termination rests on the fact that a call which returns false leaves the
  board as it found it (the loop itself: as it found it, or with the cell it was working
  on emptied). The fact is proved first for the arguments on which the recursion is
  well-founded, then used to show that these are all arguments. The measure is the number
  of empty cells, then the number of digits left to try.
\<close>

lemma try_digits_restores_partial:
  "solve_sudoku_try_digits_dom (Inl b) \<Longrightarrow> solve_sudoku b = (Inr False, b') \<Longrightarrow> b' = b"
  "solve_sudoku_try_digits_dom (Inr (b, row, col, ns)) \<Longrightarrow>
     try_digits b row col ns = (Inr False, b') \<Longrightarrow> b' = b \<or> set_cell b row col [] = Inr b'"
proof (induction b and b row col ns arbitrary: b' and b' rule: solve_sudoku_try_digits.pinduct)
  case (1 board)
  from "1.prems" "1.hyps" obtain r c where
    fe: "find_empty board = Inr (Some (r, c))" and
    t: "try_digits board r c [1..9] = (Inr False, b')"
    by (auto simp: solve_sudoku.psimps split: sum.splits option.splits)
  from "1.IH" [OF fe refl refl t] find_empty_Some [OF fe] show ?case
    by (auto dest: set_cell_same)
next
  case (2 board row col)
  then show ?case by (simp add: try_digits.psimps)
next
  case (3 board row col n ns)
  obtain res b1 where v: "is_valid board row col (str n) = (res, b1)"
    by (cases "is_valid board row col (str n)")
  then have b1: "b1 = board" by (rule is_valid_board)
  from "3.prems" "3.hyps" v consider
    (invalid) "res = Inr False" "try_digits b1 row col ns = (Inr False, b')"
  | (valid) b2 b3 b4 where "res = Inr True" "set_cell b1 row col (str n) = Inr b2"
      "solve_sudoku b2 = (Inr False, b3)" "set_cell b3 row col [] = Inr b4"
      "try_digits b4 row col ns = (Inr False, b')"
    by (auto simp: try_digits.psimps split: sum.splits bool.splits prod.splits if_splits)
  then show ?case
  proof cases
    case invalid
    from "3.IH"(3) [OF v [symmetric] invalid(1) refl invalid(2)] b1 show ?thesis by simp
  next
    case valid
    from "3.IH"(1) [OF v [symmetric] valid(1) refl valid(2) valid(3)] have b3: "b3 = b2" .
    from "3.IH"(2) [OF v [symmetric] valid(1) refl valid(2) valid(3) [symmetric] refl refl valid(4) valid(5)]
    have "b' = b4 \<or> set_cell b4 row col [] = Inr b'" .
    moreover from valid(2,4) b1 b3 have r: "set_cell board row col [] = Inr b4"
      by (auto dest: set_cell_twice)
    moreover from valid(4) have "set_cell b4 row col [] = Inr b' \<Longrightarrow> b' = b4"
      by (rule set_cell_idem)
    ultimately show ?thesis by auto
  qed
qed

termination solve_sudoku
proof (relation "measures
    [\<lambda>x. case x of Inl b \<Rightarrow> empties b | Inr (b, i, j, ns) \<Rightarrow> rest b i j,
     \<lambda>x. case x of Inl b \<Rightarrow> 0 | Inr (b, i, j, ns) \<Rightarrow> Suc (length ns)]", goal_cases)
  case 1
  then show ?case by simp
next
  case (2 board b x2 row col)
  then show ?case
    using find_empty_Some [of board row col] by (auto dest: rest_less)
next
  case (3 board row col n ns x y b ba)
  then show ?case
    by (auto dest!: is_valid_board [OF sym] rest_set_cell)
next
  case (4 board row col n ns x y b ba xa ya bb bc)
  then show ?case
    using try_digits_restores_partial(1) [of ba ya]
    by (auto dest!: is_valid_board [OF sym] dest: rest_reset rest_set_cell simp: rest_def set_cell_def split: option.splits)
next
  case (5 board row col n ns x y b)
  then show ?case
    by (auto dest!: is_valid_board [OF sym])
qed

section \<open>9x9 boards\<close>

text \<open>
  The board the claims speak of: nine rows of nine cells. On such a board no index of
  the solver is out of range, so coordinates are read as natural numbers below 9.
\<close>

definition wf_board :: "board \<Rightarrow> bool" where
  "wf_board b \<longleftrightarrow> length b = 9 \<and> (\<forall>row \<in> set b. length row = 9)"

lemma wf_board_nth: "wf_board b \<longleftrightarrow> length b = 9 \<and> (\<forall>i<9. length (b ! i) = 9)"
  by (auto simp: wf_board_def all_set_conv_all_nth)

lemma wf_row_length: "wf_board b \<Longrightarrow> i < 9 \<Longrightarrow> length (b ! i) = 9"
  by (simp add: wf_board_nth)

lemma wf_upd: "wf_board b \<Longrightarrow> wf_board (upd b r c v)"
  by (simp add: wf_board_nth)

lemma index_of_nat: "0 \<le> i \<Longrightarrow> i < int n \<Longrightarrow> index_of n i = Some (nat i)"
  by (simp add: index_of_def)

lemma wf_locate:
  "wf_board b \<Longrightarrow> 0 \<le> i \<Longrightarrow> i \<le> 8 \<Longrightarrow> 0 \<le> j \<Longrightarrow> j \<le> 8 \<Longrightarrow> locate b i j = Some (nat i, nat j)"
  by (simp add: locate_def index_of_nat wf_board_nth)

lemma wf_get_cell:
  "wf_board b \<Longrightarrow> 0 \<le> i \<Longrightarrow> i \<le> 8 \<Longrightarrow> 0 \<le> j \<Longrightarrow> j \<le> 8 \<Longrightarrow>
   get_cell b i j = Inr (b ! nat i ! nat j)"
  by (simp add: get_cell_def wf_locate)

lemma wf_set_cell:
  "wf_board b \<Longrightarrow> 0 \<le> i \<Longrightarrow> i \<le> 8 \<Longrightarrow> 0 \<le> j \<Longrightarrow> j \<le> 8 \<Longrightarrow>
   set_cell b i j v = Inr (upd b (nat i) (nat j) v)"
  by (simp add: set_cell_def wf_locate)

lemma wf_nth_upd:
  "wf_board b \<Longrightarrow> r < 9 \<Longrightarrow> c < 9 \<Longrightarrow>
   upd b r c v ! i ! j = (if i = r \<and> j = c then v else b ! i ! j)"
  by (rule nth_upd) (simp_all add: wf_board_nth)

subsection \<open>find_empty on a 9x9 board\<close>

definition full :: "board \<Rightarrow> bool" where
  "full b \<longleftrightarrow> (\<forall>row \<in> set b. [] \<notin> set row)"

definition row_major :: "(int \<times> int) list" where
  "row_major = concat (map (\<lambda>i. map (\<lambda>j. (i, j)) [0..8]) [0..8])"

definition first_empty :: "board \<Rightarrow> (int \<times> int) option" where
  "first_empty b = find (\<lambda>(i, j). b ! nat i ! nat j = []) row_major"

lemma ball_int_nat: "(\<forall>i\<in>{0..8::int}. P i) \<longleftrightarrow> (\<forall>k<9. P (int k))"
proof
  assume l: "\<forall>i\<in>{0..8::int}. P i"
  show "\<forall>k<9. P (int k)"
  proof (intro allI impI)
    fix k :: nat
    assume "k < 9"
    then have "int k \<in> {0..8}" by simp
    with l show "P (int k)" by blast
  qed
next
  assume r: "\<forall>k<9. P (int k)"
  show "\<forall>i\<in>{0..8::int}. P i"
  proof
    fix i :: int
    assume "i \<in> {0..8}"
    then have "nat i < 9" "int (nat i) = i" by auto
    with r show "P i" by metis
  qed
qed

lemma bex_int_nat: "(\<exists>i\<in>{0..8::int}. P i) \<longleftrightarrow> (\<exists>k<9. P (int k))"
  using ball_int_nat [of "\<lambda>i. \<not> P i"] by blast

lemma full_nth: "wf_board b \<Longrightarrow> full b \<longleftrightarrow> (\<forall>i<9. \<forall>j<9. b ! i ! j \<noteq> [])"
  by (simp add: full_def wf_board_nth all_set_conv_all_nth in_set_conv_nth)

lemma find_append_case:
  "find P (xs @ ys) = (case find P xs of None \<Rightarrow> find P ys | Some x \<Rightarrow> Some x)"
  by (induction xs) simp_all

lemma find_empty_cols_wf:
  assumes "wf_board b" "0 \<le> i" "i \<le> 8" "set js \<subseteq> {0..8}"
  shows "find_empty_cols b i js = Inr (find (\<lambda>(i, j). b ! nat i ! nat j = []) (map (\<lambda>j. (i, j)) js))"
  using assms(4)
proof (induction js)
  case Nil
  then show ?case by simp
next
  case (Cons j js)
  with assms(1-3) show ?case by (simp add: wf_get_cell)
qed

lemma find_empty_rows_wf:
  assumes "wf_board b" "set is \<subseteq> {0..8}"
  shows "find_empty_rows b is =
     Inr (find (\<lambda>(i, j). b ! nat i ! nat j = []) (concat (map (\<lambda>i. map (\<lambda>j. (i, j)) [0..8]) is)))"
  using assms(2)
proof (induction "is")
  case Nil
  then show ?case by simp
next
  case (Cons i "is")
  then have i: "0 \<le> i" "i \<le> 8" by simp_all
  have "set [0..8] \<subseteq> {0..8::int}" by simp
  from find_empty_cols_wf [OF assms(1) i this] Cons show ?case
    by (simp add: find_append_case split: option.splits)
qed

lemma find_empty_wf: "wf_board b \<Longrightarrow> find_empty b = Inr (first_empty b)"
  by (simp add: find_empty_def first_empty_def row_major_def find_empty_rows_wf)

lemma first_empty_None: "wf_board b \<Longrightarrow> first_empty b = None \<longleftrightarrow> full b"
proof -
  assume wf: "wf_board b"
  have "first_empty b = None \<longleftrightarrow> (\<forall>i\<in>{0..8::int}. \<forall>j\<in>{0..8::int}. b ! nat i ! nat j \<noteq> [])"
    by (auto simp: first_empty_def row_major_def find_None_iff)
  also have "\<dots> \<longleftrightarrow> (\<forall>i<9. \<forall>j<9. b ! i ! j \<noteq> [])"
    by (simp add: ball_int_nat)
  finally show ?thesis by (simp add: full_nth [OF wf])
qed

lemma find_empty_None_full: "wf_board b \<Longrightarrow> find_empty b = Inr None \<longleftrightarrow> full b"
  by (simp add: find_empty_wf first_empty_None)

lemma find_empty_Some_wf:
  assumes "wf_board b" "find_empty b = Inr (Some (r, c))"
  shows "0 \<le> r \<and> r \<le> 8 \<and> 0 \<le> c \<and> c \<le> 8 \<and> b ! nat r ! nat c = []"
proof -
  from find_empty_Some [OF assms(2)] have rc: "0 \<le> r" "r \<le> 8" "0 \<le> c" "c \<le> 8"
    and g: "get_cell b r c = Inr []" by simp_all
  from g wf_get_cell [OF assms(1) rc] rc show ?thesis by simp
qed

subsection \<open>is_valid on a 9x9 board\<close>

type_synonym pos = "nat \<times> nat"

definition row_cells :: "nat \<Rightarrow> pos list" where
  "row_cells r = map (\<lambda>j. (r, j)) [0..<9]"

definition col_cells :: "nat \<Rightarrow> pos list" where
  "col_cells c = map (\<lambda>i. (i, c)) [0..<9]"

definition box_at :: "nat \<Rightarrow> nat \<Rightarrow> pos list" where
  "box_at r0 c0 = concat (map (\<lambda>i. map (\<lambda>j. (r0 + i, c0 + j)) [0..<3]) [0..<3])"

definition cell_values :: "board \<Rightarrow> pos list \<Rightarrow> string list" where
  "cell_values b ps = map (\<lambda>(i, j). b ! i ! j) ps"

definition no_conflict :: "board \<Rightarrow> nat \<Rightarrow> nat \<Rightarrow> string \<Rightarrow> bool" where
  "no_conflict b r c d \<longleftrightarrow>
     d \<notin> set (cell_values b (row_cells r)) \<and>
     d \<notin> set (cell_values b (col_cells c)) \<and>
     d \<notin> set (cell_values b (box_at (r div 3 * 3) (c div 3 * 3)))"

lemma in_row_values: "d \<in> set (cell_values b (row_cells r)) \<longleftrightarrow> (\<exists>j<9. b ! r ! j = d)"
  by (auto simp: cell_values_def row_cells_def)

lemma in_col_values: "d \<in> set (cell_values b (col_cells c)) \<longleftrightarrow> (\<exists>i<9. b ! i ! c = d)"
  by (auto simp: cell_values_def col_cells_def)

lemma in_box_values:
  "d \<in> set (cell_values b (box_at r0 c0)) \<longleftrightarrow> (\<exists>i<3. \<exists>j<3. b ! (r0 + i) ! (c0 + j) = d)"
proof
  assume "d \<in> set (cell_values b (box_at r0 c0))"
  then obtain i j where "i < 3" "j < 3" "d = b ! (r0 + i) ! (c0 + j)"
    by (auto simp: cell_values_def box_at_def)
  then show "\<exists>i<3. \<exists>j<3. b ! (r0 + i) ! (c0 + j) = d" by blast
next
  assume "\<exists>i<3. \<exists>j<3. b ! (r0 + i) ! (c0 + j) = d"
  then obtain i j where ij: "i < 3" "j < 3" "b ! (r0 + i) ! (c0 + j) = d" by blast
  then have "(r0 + i, c0 + j) \<in> set (box_at r0 c0)"
    by (force simp: box_at_def)
  then have "(\<lambda>(i, j). b ! i ! j) (r0 + i, c0 + j) \<in> set (cell_values b (box_at r0 c0))"
    unfolding cell_values_def set_map by (rule imageI)
  with ij(3) show "d \<in> set (cell_values b (box_at r0 c0))" by simp
qed

lemma bex_int_block:
  "0 \<le> a \<Longrightarrow> (\<exists>i\<in>{a..a + 2::int}. P (nat i)) \<longleftrightarrow> (\<exists>k<3. P (nat a + k))"
proof
  assume a: "0 \<le> a" and "\<exists>i\<in>{a..a + 2}. P (nat i)"
  then obtain i where i: "a \<le> i" "i \<le> a + 2" "P (nat i)" by auto
  with a have "nat i - nat a < 3" "nat a + (nat i - nat a) = nat i" by linarith+
  with i(3) show "\<exists>k<3. P (nat a + k)" by metis
next
  assume a: "0 \<le> a" and "\<exists>k<3. P (nat a + k)"
  then obtain k where k: "k < 3" "P (nat a + k)" by auto
  with a have "a + int k \<in> {a..a + 2}" "nat (a + int k) = nat a + k" by auto
  with k(2) show "\<exists>i\<in>{a..a + 2}. P (nat i)" by metis
qed

lemma is_valid_lines_wf:
  assumes "wf_board b" "0 \<le> row" "row \<le> 8" "0 \<le> col" "col \<le> 8" "set is \<subseteq> {0..8}"
  shows "is_valid_lines b row col d is =
     (if \<exists>i\<in>set is. b ! nat row ! nat i = d \<or> b ! nat i ! nat col = d
      then Inr (Some False) else Inr None, b)"
  using assms(6)
proof (induction "is")
  case Nil
  then show ?case by simp
next
  case (Cons i "is")
  with assms(1-5) show ?case by (simp add: wf_get_cell)
qed

lemma is_valid_box_cols_wf:
  assumes "wf_board b" "0 \<le> i" "i \<le> 8" "set js \<subseteq> {0..8}"
  shows "is_valid_box_cols b i d js =
     (if \<exists>j\<in>set js. b ! nat i ! nat j = d then Inr (Some False) else Inr None, b)"
  using assms(4)
proof (induction js)
  case Nil
  then show ?case by simp
next
  case (Cons j js)
  with assms(1-3) show ?case by (simp add: wf_get_cell)
qed

lemma is_valid_box_wf:
  assumes "wf_board b" "set is \<subseteq> {0..8}" "set js \<subseteq> {0..8}"
  shows "is_valid_box b is js d =
     (if \<exists>i\<in>set is. \<exists>j\<in>set js. b ! nat i ! nat j = d then Inr (Some False) else Inr None, b)"
  using assms(2)
proof (induction "is")
  case Nil
  then show ?case by simp
next
  case (Cons i "is")
  then have i: "0 \<le> i" "i \<le> 8" by simp_all
  from Cons show ?case
    by (simp add: is_valid_box_cols_wf [OF assms(1) i assms(3)])
qed

lemma is_valid_wf:
  assumes wf: "wf_board b" and rc: "0 \<le> row" "row \<le> 8" "0 \<le> col" "col \<le> 8"
  shows "is_valid b row col d = (Inr (no_conflict b (nat row) (nat col) d), b)"
proof -
  let ?tr = "row div 3 * 3" and ?tc = "col div 3 * 3"
  have t: "0 \<le> ?tr" "?tr + 2 \<le> 8" "0 \<le> ?tc" "?tc + 2 \<le> 8"
    using rc by auto
  have n: "nat ?tr = nat row div 3 * 3" "nat ?tc = nat col div 3 * 3"
    using rc by (simp_all add: nat_div_distrib nat_mult_distrib)
  have s: "set [0..8] \<subseteq> {0..8::int}" "set [?tr..?tr + 2] \<subseteq> {0..8}" "set [?tc..?tc + 2] \<subseteq> {0..8}"
    using t by auto
  have lines: "(\<exists>i\<in>{0..8}. b ! nat row ! nat i = d \<or> b ! nat i ! nat col = d) \<longleftrightarrow>
      d \<in> set (cell_values b (row_cells (nat row))) \<or> d \<in> set (cell_values b (col_cells (nat col)))"
    by (simp add: bex_int_nat in_row_values in_col_values) blast
  have box: "(\<exists>i\<in>{?tr..?tr + 2}. \<exists>j\<in>{?tc..?tc + 2}. b ! nat i ! nat j = d) \<longleftrightarrow>
      d \<in> set (cell_values b (box_at (nat row div 3 * 3) (nat col div 3 * 3)))"
    using bex_int_block [OF t(3), of "\<lambda>j. b ! i ! j = d" for i]
      bex_int_block [OF t(1), of "\<lambda>i. \<exists>k<3. b ! i ! (nat ?tc + k) = d"]
    by (simp add: in_box_values n)
  show ?thesis
    using lines box
    by (simp add: is_valid_def Let_def is_valid_lines_wf [OF wf rc s(1)]
        is_valid_box_wf [OF wf s(2) s(3)] no_conflict_def)
qed

text \<open>
  \<open>no_conflict\<close> above looks at every cell of the row, the column and the box, the cell
  \<open>(r, c)\<close> among them; \<open>no_other_conflict\<close> leaves that one cell out.
\<close>

definition no_other_conflict :: "board \<Rightarrow> nat \<Rightarrow> nat \<Rightarrow> string \<Rightarrow> bool" where
  "no_other_conflict b r c d \<longleftrightarrow>
     d \<notin> set (cell_values b (removeAll (r, c) (row_cells r))) \<and>
     d \<notin> set (cell_values b (removeAll (r, c) (col_cells c))) \<and>
     d \<notin> set (cell_values b (removeAll (r, c) (box_at (r div 3 * 3) (c div 3 * 3))))"

text \<open>Two boards to evaluate on: a solved grid, and the same grid with two cells emptied.\<close>

definition solved_board :: board where
  "solved_board =
    [[''5'', ''3'', ''4'', ''6'', ''7'', ''8'', ''9'', ''1'', ''2''],
     [''6'', ''7'', ''2'', ''1'', ''9'', ''5'', ''3'', ''4'', ''8''],
     [''1'', ''9'', ''8'', ''3'', ''4'', ''2'', ''5'', ''6'', ''7''],
     [''8'', ''5'', ''9'', ''7'', ''6'', ''1'', ''4'', ''2'', ''3''],
     [''4'', ''2'', ''6'', ''8'', ''5'', ''3'', ''7'', ''9'', ''1''],
     [''7'', ''1'', ''3'', ''9'', ''2'', ''4'', ''8'', ''5'', ''6''],
     [''9'', ''6'', ''1'', ''5'', ''3'', ''7'', ''2'', ''8'', ''4''],
     [''2'', ''8'', ''7'', ''4'', ''1'', ''9'', ''6'', ''3'', ''5''],
     [''3'', ''4'', ''5'', ''2'', ''8'', ''6'', ''1'', ''7'', ''9'']]"

definition puzzle_board :: board where
  "puzzle_board = upd (upd solved_board 0 2 []) 4 4 []"

lemma set_cell_values: "set (cell_values b ps) = (\<lambda>(i, j). b ! i ! j) ` set ps"
  by (simp add: cell_values_def)

lemma in_row_cells: "(i, j) \<in> set (row_cells r) \<longleftrightarrow> i = r \<and> j < 9"
  by (auto simp: row_cells_def)

lemma in_col_cells: "(i, j) \<in> set (col_cells c) \<longleftrightarrow> i < 9 \<and> j = c"
  by (auto simp: col_cells_def)

lemma in_box_at: "(i, j) \<in> set (box_at r0 c0) \<longleftrightarrow> r0 \<le> i \<and> i < r0 + 3 \<and> c0 \<le> j \<and> j < c0 + 3"
proof
  assume "(i, j) \<in> set (box_at r0 c0)"
  then show "r0 \<le> i \<and> i < r0 + 3 \<and> c0 \<le> j \<and> j < c0 + 3"
    by (auto simp: box_at_def)
next
  assume a: "r0 \<le> i \<and> i < r0 + 3 \<and> c0 \<le> j \<and> j < c0 + 3"
  then have lt: "i - r0 < 3" "j - c0 < 3" and eq: "r0 + (i - r0) = i" "c0 + (j - c0) = j"
    by auto
  from lt have "(r0 + (i - r0), c0 + (j - c0)) \<in> set (box_at r0 c0)"
    by (force simp: box_at_def)
  with eq show "(i, j) \<in> set (box_at r0 c0)" by simp
qed

lemma no_conflict_nth:
  "no_conflict b r c d \<longleftrightarrow>
     (\<forall>j<9. b ! r ! j \<noteq> d) \<and> (\<forall>i<9. b ! i ! c \<noteq> d) \<and>
     (\<forall>i<3. \<forall>j<3. b ! (r div 3 * 3 + i) ! (c div 3 * 3 + j) \<noteq> d)"
  by (simp add: no_conflict_def in_row_values in_col_values in_box_values)

lemma values_removeAll:
  "p \<in> set ps \<Longrightarrow>
   d \<notin> set (cell_values b ps) \<longleftrightarrow>
     (case p of (i, j) \<Rightarrow> b ! i ! j) \<noteq> d \<and> d \<notin> set (cell_values b (removeAll p ps))"
  by (auto simp: set_cell_values)

lemma no_conflict_others:
  assumes "r < 9" "c < 9"
  shows "no_conflict b r c d \<longleftrightarrow> b ! r ! c \<noteq> d \<and> no_other_conflict b r c d"
proof -
  have "(r, c) \<in> set (row_cells r)" "(r, c) \<in> set (col_cells c)"
    using assms by (simp_all add: in_row_cells in_col_cells)
  moreover have "(r, c) \<in> set (box_at (r div 3 * 3) (c div 3 * 3))"
    by (simp add: in_box_at) presburger
  ultimately show ?thesis
    unfolding no_conflict_def no_other_conflict_def
    using values_removeAll [of "(r, c)" _ d b] by auto
qed

lemma wf_solved_board: "wf_board solved_board"
  by (simp add: wf_board_def solved_board_def)

lemma wf_puzzle_board: "wf_board puzzle_board"
  unfolding puzzle_board_def by (intro wf_upd wf_solved_board)

lemma puzzle_board_eq:
  "puzzle_board =
    [[''5'', ''3'', [], ''6'', ''7'', ''8'', ''9'', ''1'', ''2''],
     [''6'', ''7'', ''2'', ''1'', ''9'', ''5'', ''3'', ''4'', ''8''],
     [''1'', ''9'', ''8'', ''3'', ''4'', ''2'', ''5'', ''6'', ''7''],
     [''8'', ''5'', ''9'', ''7'', ''6'', ''1'', ''4'', ''2'', ''3''],
     [''4'', ''2'', ''6'', ''8'', [], ''3'', ''7'', ''9'', ''1''],
     [''7'', ''1'', ''3'', ''9'', ''2'', ''4'', ''8'', ''5'', ''6''],
     [''9'', ''6'', ''1'', ''5'', ''3'', ''7'', ''2'', ''8'', ''4''],
     [''2'', ''8'', ''7'', ''4'', ''1'', ''9'', ''6'', ''3'', ''5''],
     [''3'', ''4'', ''5'', ''2'', ''8'', ''6'', ''1'', ''7'', ''9'']]"
  by (simp add: puzzle_board_def solved_board_def upd_def)

section \<open>What a call of solve_sudoku leaves behind\<close>

text \<open>
  On a 9x9 board: \<open>peers\<close> are two cells of one row, one column or one 3x3 box;
  \<open>pw_consistent\<close> says that no filled cell shares its value with another cell among its
  peers; \<open>fills b b'\<close> says that \<open>b'\<close> keeps every filled cell of \<open>b\<close> and holds a digit
  character in every cell that is empty in \<open>b\<close>. \<open>good b res\<close> collects what a call on
  \<open>b\<close> may return: no exception; with true a full 9x9 board that fills \<open>b\<close>; with false
  the board \<open>b\<close> itself.
\<close>

declare solve_sudoku.simps [simp del] try_digits.simps(2) [simp del]

definition digit_chars :: "string list" where
  "digit_chars = map str [1..9]"

definition peers :: "pos \<Rightarrow> pos \<Rightarrow> bool" where
  "peers p q \<longleftrightarrow>
     fst p = fst q \<or> snd p = snd q \<or> (fst p div 3 = fst q div 3 \<and> snd p div 3 = snd q div 3)"

definition pw_consistent :: "board \<Rightarrow> bool" where
  "pw_consistent b \<longleftrightarrow>
     (\<forall>i<9. \<forall>j<9. \<forall>i'<9. \<forall>j'<9.
        (i, j) \<noteq> (i', j') \<and> peers (i, j) (i', j') \<and> b ! i ! j \<noteq> [] \<longrightarrow> b ! i ! j \<noteq> b ! i' ! j')"

definition fills :: "board \<Rightarrow> board \<Rightarrow> bool" where
  "fills b b' \<longleftrightarrow>
     (\<forall>i<9. \<forall>j<9. if b ! i ! j = [] then b' ! i ! j \<in> set digit_chars else b' ! i ! j = b ! i ! j)"

definition good :: "board \<Rightarrow> (error + bool) \<times> board \<Rightarrow> bool" where
  "good b res \<longleftrightarrow>
     (case res of
        (Inl e, b') \<Rightarrow> False
      | (Inr True, b') \<Rightarrow> wf_board b' \<and> full b' \<and> fills b b' \<and> (pw_consistent b \<longrightarrow> pw_consistent b')
      | (Inr False, b') \<Rightarrow> b' = b)"

lemma peers_sym: "peers p q \<Longrightarrow> peers q p"
  by (auto simp: peers_def)

lemma block_offset: "(r::nat) div 3 = i div 3 \<Longrightarrow> \<exists>k<3. i = r div 3 * 3 + k"
proof -
  assume a: "r div 3 = i div 3"
  have "i = i div 3 * 3 + i mod 3" by simp
  with a have "i = r div 3 * 3 + i mod 3" by simp
  moreover have "i mod 3 < 3" by simp
  ultimately show ?thesis by blast
qed

lemma block_div: "k < 3 \<Longrightarrow> (a * 3 + k) div 3 = (a::nat)"
  by simp

lemma block_bound: "(r::nat) < 9 \<Longrightarrow> k < 3 \<Longrightarrow> r div 3 * 3 + k < 9"
  by arith

lemma no_conflict_peers:
  assumes "r < 9" "c < 9"
  shows "no_conflict b r c d \<longleftrightarrow> (\<forall>i<9. \<forall>j<9. peers (r, c) (i, j) \<longrightarrow> b ! i ! j \<noteq> d)"
proof
  assume nc: "no_conflict b r c d"
  show "\<forall>i<9. \<forall>j<9. peers (r, c) (i, j) \<longrightarrow> b ! i ! j \<noteq> d"
  proof (intro allI impI)
    fix i j :: nat
    assume ij: "i < 9" "j < 9" and p: "peers (r, c) (i, j)"
    from p consider "i = r" | "j = c" | "r div 3 = i div 3" "c div 3 = j div 3"
      by (auto simp: peers_def)
    then show "b ! i ! j \<noteq> d"
    proof cases
      case 1
      with nc ij show ?thesis by (simp add: no_conflict_nth)
    next
      case 2
      with nc ij show ?thesis by (simp add: no_conflict_nth)
    next
      case 3
      from block_offset [OF 3(1)] obtain k where k: "k < 3" "i = r div 3 * 3 + k" by blast
      from block_offset [OF 3(2)] obtain l where l: "l < 3" "j = c div 3 * 3 + l" by blast
      from nc k(1) l(1) have "b ! (r div 3 * 3 + k) ! (c div 3 * 3 + l) \<noteq> d"
        by (simp add: no_conflict_nth)
      with k(2) l(2) show ?thesis by simp
    qed
  qed
next
  assume a: "\<forall>i<9. \<forall>j<9. peers (r, c) (i, j) \<longrightarrow> b ! i ! j \<noteq> d"
  have "\<forall>j<9. b ! r ! j \<noteq> d"
    using a assms by (simp add: peers_def)
  moreover have "\<forall>i<9. b ! i ! c \<noteq> d"
    using a assms by (simp add: peers_def)
  moreover have "\<forall>i<3. \<forall>j<3. b ! (r div 3 * 3 + i) ! (c div 3 * 3 + j) \<noteq> d"
  proof (intro allI impI)
    fix i j :: nat
    assume ij: "i < 3" "j < 3"
    have "peers (r, c) (r div 3 * 3 + i, c div 3 * 3 + j)"
      using ij by (simp add: peers_def block_div)
    with a block_bound [OF assms(1) ij(1)] block_bound [OF assms(2) ij(2)]
    show "b ! (r div 3 * 3 + i) ! (c div 3 * 3 + j) \<noteq> d" by blast
  qed
  ultimately show "no_conflict b r c d" by (simp add: no_conflict_nth)
qed

lemma pw_consistent_upd:
  assumes wf: "wf_board b" and rc: "r < 9" "c < 9" and pw: "pw_consistent b"
    and nc: "no_conflict b r c d"
  shows "pw_consistent (upd b r c d)"
  unfolding pw_consistent_def
proof (intro allI impI, elim conjE)
  fix i j i' j' :: nat
  assume b: "i < 9" "j < 9" "i' < 9" "j' < 9" and ne: "(i, j) \<noteq> (i', j')"
    and p: "peers (i, j) (i', j')" and v: "upd b r c d ! i ! j \<noteq> []"
  note u = wf_nth_upd [OF wf rc]
  show "upd b r c d ! i ! j \<noteq> upd b r c d ! i' ! j'"
  proof (cases "i = r \<and> j = c")
    case True
    with ne have "\<not> (i' = r \<and> j' = c)" by auto
    moreover from True p nc b rc have "b ! i' ! j' \<noteq> d"
      by (simp add: no_conflict_peers)
    ultimately show ?thesis using True by (auto simp: u)
  next
    case False
    show ?thesis
    proof (cases "i' = r \<and> j' = c")
      case True
      with p nc b rc have "b ! i ! j \<noteq> d"
        using peers_sym [of "(i, j)" "(r, c)"] by (simp add: no_conflict_peers)
      with True False show ?thesis by (auto simp: u)
    next
      case F2: False
      with False v have "b ! i ! j \<noteq> []" by (auto simp: u split: if_splits)
      with pw b ne p have "b ! i ! j \<noteq> b ! i' ! j'"
        unfolding pw_consistent_def by blast
      with False F2 show ?thesis by (auto simp: u)
    qed
  qed
qed

lemma str_in_digit_chars: "1 \<le> n \<Longrightarrow> n \<le> 9 \<Longrightarrow> str n \<in> set digit_chars"
  by (simp add: digit_chars_def)

lemma empties_upd_less:
  "wf_board b \<Longrightarrow> r < 9 \<Longrightarrow> c < 9 \<Longrightarrow> b ! r ! c = [] \<Longrightarrow> d \<noteq> [] \<Longrightarrow>
   Suc (empties (upd b r c d)) = empties b"
  using empties_upd [of r b c d] by (simp add: wf_board_nth)

lemma fills_refl: "wf_board b \<Longrightarrow> full b \<Longrightarrow> fills b b"
  by (simp add: fills_def full_nth)

lemma fills_upd:
  assumes wf: "wf_board b" and rc: "r < 9" "c < 9" and e: "b ! r ! c = []"
    and d: "d \<in> set digit_chars" "d \<noteq> []" and f: "fills (upd b r c d) b3"
  shows "fills b b3"
  unfolding fills_def
proof (intro allI impI)
  fix i j :: nat
  assume ij: "i < 9" "j < 9"
  from f ij have *: "if upd b r c d ! i ! j = [] then b3 ! i ! j \<in> set digit_chars
      else b3 ! i ! j = upd b r c d ! i ! j"
    by (simp add: fills_def)
  show "if b ! i ! j = [] then b3 ! i ! j \<in> set digit_chars else b3 ! i ! j = b ! i ! j"
  proof (cases "i = r \<and> j = c")
    case True
    with * d e show ?thesis by (simp add: wf_nth_upd [OF wf rc])
  next
    case False
    then have "upd b r c d ! i ! j = b ! i ! j" by (auto simp: wf_nth_upd [OF wf rc])
    with * show ?thesis by simp
  qed
qed

lemma try_digits_good:
  assumes wf: "wf_board b" and rc: "0 \<le> r" "r \<le> 8" "0 \<le> c" "c \<le> 8"
    and e: "b ! nat r ! nat c = []"
    and IH: "\<And>b2. wf_board b2 \<Longrightarrow> empties b2 < empties b \<Longrightarrow> good b2 (solve_sudoku b2)"
    and ns: "set ns \<subseteq> {1..9}"
  shows "good b (try_digits b r c ns)"
  using ns
proof (induction ns)
  case Nil
  then show ?case by (simp add: good_def)
next
  case (Cons n ns)
  from rc have nrc: "nat r < 9" "nat c < 9" by auto
  let ?d = "str n"
  let ?b2 = "upd b (nat r) (nat c) ?d"
  from Cons.prems have n: "1 \<le> n" "n \<le> 9" by simp_all
  from Cons have rest: "good b (try_digits b r c ns)" by simp
  note v = is_valid_wf [OF wf rc, of ?d]
  show ?case
  proof (cases "no_conflict b (nat r) (nat c) ?d")
    case False
    with v rest show ?thesis by (simp add: try_digits.simps(2))
  next
    case True
    have wf2: "wf_board ?b2" by (rule wf_upd [OF wf])
    have less: "empties ?b2 < empties b"
      using empties_upd_less [OF wf nrc e, of ?d] by simp
    from IH [OF wf2 less] have g2: "good ?b2 (solve_sudoku ?b2)" .
    obtain res b3 where s: "solve_sudoku ?b2 = (res, b3)" by (cases "solve_sudoku ?b2")
    with g2 obtain ok where res: "res = Inr ok" by (cases res) (auto simp: good_def)
    show ?thesis
    proof (cases ok)
      case True
      with g2 s res have g: "wf_board b3" "full b3" "fills ?b2 b3"
        "pw_consistent ?b2 \<longrightarrow> pw_consistent b3"
        by (simp_all add: good_def)
      from fills_upd [OF wf nrc e str_in_digit_chars [OF n] _ g(3)] have "fills b b3" by simp
      moreover from pw_consistent_upd [OF wf nrc _ \<open>no_conflict b (nat r) (nat c) ?d\<close>] g(4)
      have "pw_consistent b \<longrightarrow> pw_consistent b3" by blast
      ultimately have "good b (Inr True, b3)" using g by (simp add: good_def)
      with v \<open>no_conflict b (nat r) (nat c) ?d\<close> s res True show ?thesis
        by (simp add: try_digits.simps(2) wf_set_cell [OF wf rc])
    next
      case False
      with g2 s res have b3: "b3 = ?b2" by (simp add: good_def)
      have "upd ?b2 (nat r) (nat c) [] = b"
        using upd_same [of "nat r" b "nat c" "[]"] nrc e wf by (simp add: wf_board_nth)
      with v \<open>no_conflict b (nat r) (nat c) ?d\<close> s res False b3 rest show ?thesis
        by (simp add: try_digits.simps(2) wf_set_cell [OF wf rc] wf_set_cell [OF wf2 rc])
    qed
  qed
qed

lemma solve_sudoku_good: "wf_board b \<Longrightarrow> good b (solve_sudoku b)"
proof (induction "empties b" arbitrary: b rule: less_induct)
  case less
  show ?case
  proof (cases "first_empty b")
    case None
    with less.prems have "full b" by (simp add: first_empty_None)
    with None less.prems show ?thesis
      by (simp add: solve_sudoku.simps find_empty_wf good_def fills_refl)
  next
    case (Some cell)
    obtain r c where cell: "cell = (r, c)" by (cases cell)
    with Some less.prems have fe: "find_empty b = Inr (Some (r, c))" by (simp add: find_empty_wf)
    from find_empty_Some_wf [OF less.prems fe]
    have rc: "0 \<le> r" "r \<le> 8" "0 \<le> c" "c \<le> 8" and e: "b ! nat r ! nat c = []" by simp_all
    have "good b (try_digits b r c [1..9])"
      by (rule try_digits_good [OF less.prems rc e]) (use less.hyps in auto)
    with fe show ?thesis by (simp add: solve_sudoku.simps)
  qed
qed

section \<open>Rows, columns, boxes and solved boards\<close>

text \<open>
  The 27 units of the grid are its nine rows, nine columns and nine 3x3 boxes, each a list
  of nine coordinates. A board is \<open>solved\<close> when every unit contains each digit character
  '1'..'9' exactly once; it is \<open>consistent\<close> when no unit holds the same non-empty value
  twice; \<open>keeps_givens b s\<close> says that \<open>s\<close> holds, in every cell that is filled in \<open>b\<close>, the
  value \<open>b\<close> holds there.
\<close>

definition box_cells :: "nat \<Rightarrow> pos list" where
  "box_cells k = box_at (k div 3 * 3) (k mod 3 * 3)"

definition units :: "pos list list" where
  "units = map row_cells [0..<9] @ map col_cells [0..<9] @ map box_cells [0..<9]"

definition solved :: "board \<Rightarrow> bool" where
  "solved b \<longleftrightarrow>
     wf_board b \<and> (\<forall>u \<in> set units. \<forall>d \<in> set digit_chars. count_list (cell_values b u) d = 1)"

definition consistent :: "board \<Rightarrow> bool" where
  "consistent b \<longleftrightarrow> (\<forall>u \<in> set units. distinct (filter (\<lambda>v. v \<noteq> []) (cell_values b u)))"

definition keeps_givens :: "board \<Rightarrow> board \<Rightarrow> bool" where
  "keeps_givens b s \<longleftrightarrow> (\<forall>i<9. \<forall>j<9. b ! i ! j \<noteq> [] \<longrightarrow> s ! i ! j = b ! i ! j)"

lemma count_list_distinct: "distinct xs \<Longrightarrow> d \<in> set xs \<Longrightarrow> count_list xs d = 1"
  by (induction xs) auto

lemma counts_one_distinct:
  assumes len: "length xs = length ds" and ds: "distinct ds"
    and cnt: "\<forall>d\<in>set ds. count_list xs d = 1"
  shows "distinct xs \<and> set xs = set ds"
proof -
  have sub: "set ds \<subseteq> set xs"
  proof
    fix d assume "d \<in> set ds"
    with cnt have "count_list xs d \<noteq> 0" by simp
    then show "d \<in> set xs" by (simp add: count_list_0_iff)
  qed
  then have "card (set ds) \<le> card (set xs)" by (simp add: card_mono)
  with distinct_card [OF ds] len card_length [of xs] have c: "card (set xs) = length xs"
    by simp
  then have d: "distinct xs" by (rule card_distinct)
  from c len distinct_card [OF ds] have "card (set xs) \<le> card (set ds)" by simp
  with sub have "set ds = set xs" by (intro card_seteq) simp_all
  with d show ?thesis by simp
qed

lemma distinct_counts_one:
  assumes xs: "distinct xs" and sub: "set xs \<subseteq> set ds"
    and len: "length xs = length ds" and ds: "distinct ds"
  shows "\<forall>d\<in>set ds. count_list xs d = 1"
proof -
  from distinct_card [OF xs] distinct_card [OF ds] len have "card (set ds) \<le> card (set xs)"
    by simp
  with sub have "set xs = set ds" by (intro card_seteq) simp_all
  with xs show ?thesis by (simp add: count_list_distinct)
qed

lemma distinct_filter_map:
  "distinct u \<Longrightarrow>
   distinct (filter P (map f u)) \<longleftrightarrow> (\<forall>p\<in>set u. \<forall>q\<in>set u. p \<noteq> q \<and> P (f p) \<longrightarrow> f p \<noteq> f q)"
proof (induction u)
  case Nil
  then show ?case by simp
next
  case (Cons x u)
  then show ?case by (auto simp: image_iff)
qed

lemma in_units:
  "u \<in> set units \<longleftrightarrow>
     (\<exists>r<9. u = row_cells r) \<or> (\<exists>c<9. u = col_cells c) \<or> (\<exists>k<9. u = box_cells k)"
  by (auto simp: units_def)

lemma block_div_eq: "a * 3 \<le> i \<Longrightarrow> i < a * 3 + 3 \<Longrightarrow> i div 3 = (a::nat)"
  by arith

lemma block_low: "(i::nat) div 3 * 3 \<le> i \<and> i < i div 3 * 3 + 3"
  by arith

lemma box_at_list:
  "box_at r0 c0 =
     [(r0, c0), (r0, c0 + 1), (r0, c0 + 2),
      (r0 + 1, c0), (r0 + 1, c0 + 1), (r0 + 1, c0 + 2),
      (r0 + 2, c0), (r0 + 2, c0 + 1), (r0 + 2, c0 + 2)]"
proof -
  have "[0..<3] = [0, Suc 0, Suc (Suc 0)]" by (simp add: numeral_3_eq_3)
  then show ?thesis by (simp add: box_at_def)
qed

lemma unit_distinct: "u \<in> set units \<Longrightarrow> distinct u \<and> length u = 9"
  unfolding in_units
  by (auto simp: row_cells_def col_cells_def box_cells_def box_at_list distinct_map inj_on_def)

lemma in_box_cells:
  "(i, j) \<in> set (box_cells k) \<longleftrightarrow> i div 3 = k div 3 \<and> j div 3 = k mod 3"
proof
  assume "(i, j) \<in> set (box_cells k)"
  then have "k div 3 * 3 \<le> i" "i < k div 3 * 3 + 3" "k mod 3 * 3 \<le> j" "j < k mod 3 * 3 + 3"
    by (simp_all add: box_cells_def in_box_at)
  then show "i div 3 = k div 3 \<and> j div 3 = k mod 3"
    using block_div_eq [of "k div 3" i] block_div_eq [of "k mod 3" j] by blast
next
  assume a: "i div 3 = k div 3 \<and> j div 3 = k mod 3"
  from block_low [of i] block_low [of j] a
  have "k div 3 * 3 \<le> i \<and> i < k div 3 * 3 + 3 \<and> k mod 3 * 3 \<le> j \<and> j < k mod 3 * 3 + 3"
    by metis
  then show "(i, j) \<in> set (box_cells k)"
    by (simp add: box_cells_def in_box_at)
qed

lemma div3_less: "(i::nat) < 9 \<Longrightarrow> i div 3 < 3"
  by simp

lemma block_less9: "a < 3 \<Longrightarrow> i < a * 3 + 3 \<Longrightarrow> i < (9::nat)"
  by arith

lemma block_index: "b < 3 \<Longrightarrow> (a * 3 + b) div 3 = a \<and> (a * 3 + b) mod 3 = (b::nat)"
  by simp

lemma block_index_less: "a < 3 \<Longrightarrow> b < 3 \<Longrightarrow> a * 3 + b < (9::nat)"
  by arith

lemma unit_in_range: "u \<in> set units \<Longrightarrow> (i, j) \<in> set u \<Longrightarrow> i < 9 \<and> j < 9"
proof -
  assume u: "u \<in> set units" and ij: "(i, j) \<in> set u"
  from u consider r where "r < 9" "u = row_cells r" | c where "c < 9" "u = col_cells c"
    | k where "k < 9" "u = box_cells k"
    unfolding in_units by blast
  then show ?thesis
  proof cases
    case 1
    with ij show ?thesis by (simp add: in_row_cells)
  next
    case 2
    with ij show ?thesis by (simp add: in_col_cells)
  next
    case 3
    with ij have d: "i div 3 = k div 3" "j div 3 = k mod 3" by (simp_all add: in_box_cells)
    from 3(1) have "k div 3 < 3" "k mod 3 < 3" by (simp_all add: div3_less)
    with d have "i div 3 < 3" "j div 3 < 3" by simp_all
    with block_low [of i] block_low [of j] show ?thesis
      using block_less9 [of "i div 3" i] block_less9 [of "j div 3" j] by blast
  qed
qed

lemma unit_peers: "u \<in> set units \<Longrightarrow> p \<in> set u \<Longrightarrow> q \<in> set u \<Longrightarrow> peers p q"
proof -
  assume u: "u \<in> set units" and p: "p \<in> set u" and q: "q \<in> set u"
  obtain i j i' j' where pq: "p = (i, j)" "q = (i', j')" by (cases p, cases q)
  from u consider r where "r < 9" "u = row_cells r" | c where "c < 9" "u = col_cells c"
    | k where "k < 9" "u = box_cells k"
    unfolding in_units by blast
  then show ?thesis
  proof cases
    case 1
    with p q pq show ?thesis by (simp add: in_row_cells peers_def)
  next
    case 2
    with p q pq show ?thesis by (simp add: in_col_cells peers_def)
  next
    case 3
    with p q pq show ?thesis by (simp add: in_box_cells peers_def)
  qed
qed

lemma peers_unit:
  assumes "i < 9" "j < 9" "i' < 9" "j' < 9" "peers (i, j) (i', j')"
  shows "\<exists>u\<in>set units. (i, j) \<in> set u \<and> (i', j') \<in> set u"
proof -
  from assms(5) consider "i = i'" | "j = j'" | "i div 3 = i' div 3" "j div 3 = j' div 3"
    by (auto simp: peers_def)
  then show ?thesis
  proof cases
    case 1
    from assms(1) have "row_cells i \<in> set units" unfolding in_units by blast
    moreover from 1 assms have "(i, j) \<in> set (row_cells i)" "(i', j') \<in> set (row_cells i)"
      by (simp_all add: in_row_cells)
    ultimately show ?thesis by blast
  next
    case 2
    from assms(2) have "col_cells j \<in> set units" unfolding in_units by blast
    moreover from 2 assms have "(i, j) \<in> set (col_cells j)" "(i', j') \<in> set (col_cells j)"
      by (simp_all add: in_col_cells)
    ultimately show ?thesis by blast
  next
    case 3
    let ?k = "i div 3 * 3 + j div 3"
    from assms(1,2) have ab: "i div 3 < 3" "j div 3 < 3" by (simp_all add: div3_less)
    from block_index [OF ab(2), of "i div 3"] have k: "?k div 3 = i div 3" "?k mod 3 = j div 3"
      by simp_all
    from block_index_less [OF ab] have "?k < 9" .
    then have "box_cells ?k \<in> set units" unfolding in_units by blast
    moreover from k 3 have "(i, j) \<in> set (box_cells ?k)" "(i', j') \<in> set (box_cells ?k)"
      by (simp_all only: in_box_cells)
    ultimately show ?thesis by blast
  qed
qed

lemma digit_chars_facts: "distinct digit_chars" "length digit_chars = 9" "[] \<notin> set digit_chars"
  by code_simp+

lemma consistent_pw: "consistent b \<longleftrightarrow> pw_consistent b"
proof
  assume c: "consistent b"
  show "pw_consistent b"
    unfolding pw_consistent_def
  proof (intro allI impI, elim conjE)
    fix i j i' j' :: nat
    assume r: "i < 9" "j < 9" "i' < 9" "j' < 9" and ne: "(i, j) \<noteq> (i', j')"
      and p: "peers (i, j) (i', j')" and v: "b ! i ! j \<noteq> []"
    from peers_unit [OF r p] obtain u where u: "u \<in> set units" "(i, j) \<in> set u" "(i', j') \<in> set u"
      by blast
    from c u(1) have "distinct (filter (\<lambda>v. v \<noteq> []) (map (\<lambda>(i, j). b ! i ! j) u))"
      by (simp add: consistent_def cell_values_def)
    with unit_distinct [OF u(1)]
    have "\<forall>p\<in>set u. \<forall>q\<in>set u. p \<noteq> q \<and> (case p of (i, j) \<Rightarrow> b ! i ! j) \<noteq> [] \<longrightarrow>
        (case p of (i, j) \<Rightarrow> b ! i ! j) \<noteq> (case q of (i, j) \<Rightarrow> b ! i ! j)"
      by (simp add: distinct_filter_map)
    from this [rule_format, OF u(2) u(3)] ne v show "b ! i ! j \<noteq> b ! i' ! j'" by simp
  qed
next
  assume pw: "pw_consistent b"
  show "consistent b"
    unfolding consistent_def cell_values_def
  proof
    fix u assume u: "u \<in> set units"
    have "\<forall>p\<in>set u. \<forall>q\<in>set u. p \<noteq> q \<and> (case p of (i, j) \<Rightarrow> b ! i ! j) \<noteq> [] \<longrightarrow>
        (case p of (i, j) \<Rightarrow> b ! i ! j) \<noteq> (case q of (i, j) \<Rightarrow> b ! i ! j)"
    proof (intro ballI impI, elim conjE)
      fix p q assume pq: "p \<in> set u" "q \<in> set u" "p \<noteq> q"
        and v: "(case p of (i, j) \<Rightarrow> b ! i ! j) \<noteq> []"
      obtain i j i' j' where e: "p = (i, j)" "q = (i', j')" by (cases p, cases q)
      from unit_in_range [OF u] pq e have r: "i < 9" "j < 9" "i' < 9" "j' < 9" by blast+
      from unit_peers [OF u pq(1,2)] e have "peers (i, j) (i', j')" by simp
      with pw r pq(3) v e have "b ! i ! j \<noteq> b ! i' ! j'"
        unfolding pw_consistent_def by simp
      with e show "(case p of (i, j) \<Rightarrow> b ! i ! j) \<noteq> (case q of (i, j) \<Rightarrow> b ! i ! j)"
        by simp
    qed
    with unit_distinct [OF u] show "distinct (filter (\<lambda>v. v \<noteq> []) (map (\<lambda>(i, j). b ! i ! j) u))"
      by (simp add: distinct_filter_map)
  qed
qed

lemma solved_iff:
  "solved b \<longleftrightarrow> wf_board b \<and> pw_consistent b \<and> (\<forall>i<9. \<forall>j<9. b ! i ! j \<in> set digit_chars)"
proof
  assume s: "solved b"
  have u: "distinct (cell_values b u) \<and> set (cell_values b u) = set digit_chars"
    if "u \<in> set units" for u
  proof (rule counts_one_distinct)
    show "length (cell_values b u) = length digit_chars"
      using unit_distinct [OF that] by (simp add: cell_values_def digit_chars_facts)
    show "distinct digit_chars" by (rule digit_chars_facts)
    show "\<forall>d\<in>set digit_chars. count_list (cell_values b u) d = 1"
      using s that by (simp add: solved_def)
  qed
  have "consistent b"
    unfolding consistent_def using u by (simp add: distinct_filter)
  moreover have "\<forall>i<9. \<forall>j<9. b ! i ! j \<in> set digit_chars"
  proof (intro allI impI)
    fix i j :: nat assume ij: "i < 9" "j < 9"
    then have "row_cells i \<in> set units" unfolding in_units by blast
    from u [OF this] have "set (cell_values b (row_cells i)) = set digit_chars" by simp
    moreover from ij have "b ! i ! j \<in> set (cell_values b (row_cells i))"
      unfolding in_row_values by blast
    ultimately show "b ! i ! j \<in> set digit_chars" by simp
  qed
  ultimately show "wf_board b \<and> pw_consistent b \<and> (\<forall>i<9. \<forall>j<9. b ! i ! j \<in> set digit_chars)"
    using s by (simp add: consistent_pw solved_def)
next
  assume a: "wf_board b \<and> pw_consistent b \<and> (\<forall>i<9. \<forall>j<9. b ! i ! j \<in> set digit_chars)"
  then have c: "consistent b" by (simp add: consistent_pw)
  have "\<forall>d\<in>set digit_chars. count_list (cell_values b u) d = 1" if u: "u \<in> set units" for u
  proof (rule distinct_counts_one)
    have sub: "set (cell_values b u) \<subseteq> set digit_chars"
    proof
      fix v assume "v \<in> set (cell_values b u)"
      then obtain i j where ij: "(i, j) \<in> set u" "v = b ! i ! j"
        by (auto simp: cell_values_def)
      from unit_in_range [OF u ij(1)] a ij(2) show "v \<in> set digit_chars" by simp
    qed
    then show "set (cell_values b u) \<subseteq> set digit_chars" .
    from sub digit_chars_facts(3) have "\<forall>v\<in>set (cell_values b u). v \<noteq> []" by blast
    then have "filter (\<lambda>v. v \<noteq> []) (cell_values b u) = cell_values b u"
      by (simp add: filter_id_conv)
    with c u show "distinct (cell_values b u)" unfolding consistent_def by metis
    show "length (cell_values b u) = length digit_chars"
      using unit_distinct [OF u] by (simp add: cell_values_def digit_chars_facts)
    show "distinct digit_chars" by (rule digit_chars_facts)
  qed
  with a show "solved b" by (simp add: solved_def)
qed

section \<open>The search finds a completion when there is one\<close>

lemma keeps_givens_nth:
  "keeps_givens b s \<longleftrightarrow> (\<forall>i<9. \<forall>j<9. b ! i ! j \<noteq> [] \<longrightarrow> s ! i ! j = b ! i ! j)"
  by (simp add: keeps_givens_def)

lemma try_digits_step:
  assumes wf: "wf_board b" and rc: "0 \<le> r" "r \<le> 8" "0 \<le> c" "c \<le> 8"
    and e: "b ! nat r ! nat c = []"
  shows "try_digits b r c (n # ns) =
     (if no_conflict b (nat r) (nat c) (str n)
      then (let res = solve_sudoku (upd b (nat r) (nat c) (str n))
            in if fst res = Inr True then res else try_digits b r c ns)
      else try_digits b r c ns)"
proof -
  from rc have nrc: "nat r < 9" "nat c < 9" by auto
  let ?b2 = "upd b (nat r) (nat c) (str n)"
  have wf2: "wf_board ?b2" by (rule wf_upd [OF wf])
  note v = is_valid_wf [OF wf rc, of "str n"]
  obtain res b3 where s: "solve_sudoku ?b2 = (res, b3)" by (cases "solve_sudoku ?b2")
  from solve_sudoku_good [OF wf2] s obtain ok where res: "res = Inr ok"
    by (cases res) (auto simp: good_def)
  have restore: "upd ?b2 (nat r) (nat c) [] = b"
    using upd_same [of "nat r" b "nat c" "[]"] nrc e wf by (simp add: wf_board_nth)
  show ?thesis
  proof (cases ok)
    case True
    with v s res show ?thesis
      by (simp add: try_digits.simps(2) wf_set_cell [OF wf rc])
  next
    case False
    with solve_sudoku_good [OF wf2] s res have "b3 = ?b2" by (simp add: good_def)
    with v s res False restore show ?thesis
      by (simp add: try_digits.simps(2) wf_set_cell [OF wf rc] wf_set_cell [OF wf2 rc])
  qed
qed

lemma completion_cell:
  assumes rc: "r < 9" "c < 9" and e: "b ! r ! c = []"
    and s: "solved s" and k: "keeps_givens b s"
  shows "s ! r ! c \<in> set digit_chars \<and> no_conflict b r c (s ! r ! c)"
proof -
  from s have pw: "pw_consistent s" and dg: "\<forall>i<9. \<forall>j<9. s ! i ! j \<in> set digit_chars"
    by (simp_all add: solved_iff)
  from dg rc have d: "s ! r ! c \<in> set digit_chars" by simp
  with digit_chars_facts(3) have ne: "s ! r ! c \<noteq> []" by metis
  have "\<forall>i<9. \<forall>j<9. peers (r, c) (i, j) \<longrightarrow> b ! i ! j \<noteq> s ! r ! c"
  proof (intro allI impI)
    fix i j :: nat assume ij: "i < 9" "j < 9" and p: "peers (r, c) (i, j)"
    show "b ! i ! j \<noteq> s ! r ! c"
    proof (cases "b ! i ! j = []")
      case True
      with ne show ?thesis by simp
    next
      case False
      with e have "(r, c) \<noteq> (i, j)" by auto
      with pw rc ij p ne have "s ! r ! c \<noteq> s ! i ! j"
        unfolding pw_consistent_def by blast
      moreover from k ij False have "s ! i ! j = b ! i ! j" by (simp add: keeps_givens_nth)
      ultimately show ?thesis by simp
    qed
  qed
  with d show ?thesis by (simp add: no_conflict_peers [OF rc])
qed

lemma keeps_givens_upd:
  assumes wf: "wf_board b" and rc: "r < 9" "c < 9" and k: "keeps_givens b s"
  shows "keeps_givens (upd b r c (s ! r ! c)) s"
  unfolding keeps_givens_nth
proof (intro allI impI)
  fix i j :: nat assume ij: "i < 9" "j < 9" and v: "upd b r c (s ! r ! c) ! i ! j \<noteq> []"
  show "s ! i ! j = upd b r c (s ! r ! c) ! i ! j"
  proof (cases "i = r \<and> j = c")
    case True
    then show ?thesis by (simp add: wf_nth_upd [OF wf rc])
  next
    case False
    then have "upd b r c (s ! r ! c) ! i ! j = b ! i ! j" by (auto simp: wf_nth_upd [OF wf rc])
    with v k ij show ?thesis by (simp add: keeps_givens_nth)
  qed
qed

lemma try_digits_complete:
  assumes wf: "wf_board b" and rc: "0 \<le> r" "r \<le> 8" "0 \<le> c" "c \<le> 8"
    and e: "b ! nat r ! nat c = []"
    and s: "solved s" and k: "keeps_givens b s"
    and IH: "\<And>b2. wf_board b2 \<Longrightarrow> empties b2 < empties b \<Longrightarrow> keeps_givens b2 s \<Longrightarrow>
               fst (solve_sudoku b2) = Inr True"
    and ns: "s ! nat r ! nat c \<in> str ` set ns"
  shows "fst (try_digits b r c ns) = Inr True"
  using ns
proof (induction ns)
  case Nil
  then show ?case by simp
next
  case (Cons n ns)
  from rc have nrc: "nat r < 9" "nat c < 9" by auto
  note cc = completion_cell [OF nrc e s k]
  note step = try_digits_step [OF wf rc e, of n ns]
  let ?b2 = "upd b (nat r) (nat c) (str n)"
  show ?case
  proof (cases "str n = s ! nat r ! nat c")
    case True
    with cc have nc: "no_conflict b (nat r) (nat c) (str n)" by simp
    have "wf_board ?b2" by (rule wf_upd [OF wf])
    moreover have "empties ?b2 < empties b"
      using empties_upd_less [OF wf nrc e, of "str n"] by simp
    moreover have "keeps_givens ?b2 s"
      using keeps_givens_upd [OF wf nrc k] True by simp
    ultimately have "fst (solve_sudoku ?b2) = Inr True" by (rule IH)
    with step nc show ?thesis by (simp add: Let_def)
  next
    case False
    with Cons.prems have "s ! nat r ! nat c \<in> str ` set ns" by auto
    with Cons.IH have "fst (try_digits b r c ns) = Inr True" by simp
    with step show ?thesis by (simp add: Let_def)
  qed
qed

lemma solve_sudoku_complete:
  "wf_board b \<Longrightarrow> solved s \<Longrightarrow> keeps_givens b s \<Longrightarrow> fst (solve_sudoku b) = Inr True"
proof (induction "empties b" arbitrary: b rule: less_induct)
  case less
  show ?case
  proof (cases "first_empty b")
    case None
    with less.prems show ?thesis by (simp add: solve_sudoku.simps find_empty_wf)
  next
    case (Some cell)
    obtain r c where cell: "cell = (r, c)" by (cases cell)
    with Some less.prems have fe: "find_empty b = Inr (Some (r, c))" by (simp add: find_empty_wf)
    from find_empty_Some_wf [OF less.prems(1) fe]
    have rc: "0 \<le> r" "r \<le> 8" "0 \<le> c" "c \<le> 8" and e: "b ! nat r ! nat c = []" by simp_all
    from rc have nrc: "nat r < 9" "nat c < 9" by auto
    from completion_cell [OF nrc e less.prems(2,3)]
    have "s ! nat r ! nat c \<in> str ` set [1..9]" by (simp add: digit_chars_def)
    with less.hyps less.prems have "fst (try_digits b r c [1..9]) = Inr True"
      by (intro try_digits_complete [OF less.prems(1) rc e less.prems(2,3)]) auto
    with fe show ?thesis by (simp add: solve_sudoku.simps)
  qed
qed

section \<open>The writes and recursive calls of a run\<close>

text \<open>A call that returns false leaves the board as it found it, on every board.\<close>

lemma try_digits_restores:
  "solve_sudoku b = (Inr False, b') \<Longrightarrow> b' = b"
  "try_digits b row col ns = (Inr False, b') \<Longrightarrow> b' = b \<or> set_cell b row col [] = Inr b'"
proof (induction b and b row col ns arbitrary: b' and b' rule: solve_sudoku_try_digits.induct)
  case (1 board)
  from "1.prems" obtain r c where
    fe: "find_empty board = Inr (Some (r, c))" and
    t: "try_digits board r c [1..9] = (Inr False, b')"
    by (auto simp: solve_sudoku.simps split: sum.splits option.splits)
  from "1.IH" [OF fe refl refl t] find_empty_Some [OF fe] show ?case
    by (auto dest: set_cell_same)
next
  case (2 board row col)
  then show ?case by simp
next
  case (3 board row col n ns)
  obtain res b1 where v: "is_valid board row col (str n) = (res, b1)"
    by (cases "is_valid board row col (str n)")
  then have b1: "b1 = board" by (rule is_valid_board)
  from "3.prems" v consider
    (invalid) "res = Inr False" "try_digits b1 row col ns = (Inr False, b')"
  | (valid) b2 b3 b4 where "res = Inr True" "set_cell b1 row col (str n) = Inr b2"
      "solve_sudoku b2 = (Inr False, b3)" "set_cell b3 row col [] = Inr b4"
      "try_digits b4 row col ns = (Inr False, b')"
    by (auto simp: try_digits.simps(2) split: sum.splits bool.splits prod.splits if_splits)
  then show ?case
  proof cases
    case invalid
    from "3.IH"(3) [OF v [symmetric] invalid(1) refl invalid(2)] b1 show ?thesis by simp
  next
    case valid
    from "3.IH"(1) [OF v [symmetric] valid(1) refl valid(2) valid(3)] have b3: "b3 = b2" .
    from "3.IH"(2) [OF v [symmetric] valid(1) refl valid(2) valid(3) [symmetric] refl refl valid(4) valid(5)]
    have "b' = b4 \<or> set_cell b4 row col [] = Inr b'" .
    moreover from valid(2,4) b1 b3 have r: "set_cell board row col [] = Inr b4"
      by (auto dest: set_cell_twice)
    moreover from valid(4) have "set_cell b4 row col [] = Inr b' \<Longrightarrow> b' = b4"
      by (rule set_cell_idem)
    ultimately show ?thesis by auto
  qed
qed

text \<open>
  \<open>solve_events\<close> follows \<open>solve_sudoku\<close> step for step (the same tests in the same
  order, the results of the recursive calls taken from \<open>solve_sudoku\<close> itself) and
  records what a run does: \<open>Write row col v board'\<close> for an assignment
  \<^verbatim>\<open>board[row][col] = v\<close> that leaves the board as \<open>board'\<close>, and
  \<open>Recurse d caller callee\<close> for a recursive call at nesting depth \<open>d\<close> (the outermost
  call has depth 0), made by a call that was working on the board \<open>caller\<close>, on the board
  \<open>callee\<close>. The events of nested calls are part of the list, in the order of execution.
\<close>

datatype event = Write int int string board | Recurse nat board board

function solve_events :: "nat \<Rightarrow> board \<Rightarrow> event list"
  and try_events :: "nat \<Rightarrow> board \<Rightarrow> int \<Rightarrow> int \<Rightarrow> int list \<Rightarrow> event list" where
  "solve_events depth board =
     (case find_empty board of
        Inl e \<Rightarrow> []
      | Inr None \<Rightarrow> []
      | Inr (Some (row, col)) \<Rightarrow> try_events depth board row col [1..9])"
| "try_events depth board row col [] = []"
| "try_events depth board row col (n # ns) =
     (case is_valid board row col (str n) of
        (Inl e, board1) \<Rightarrow> []
      | (Inr False, board1) \<Rightarrow> try_events depth board1 row col ns
      | (Inr True, board1) \<Rightarrow>
          (case set_cell board1 row col (str n) of
             Inl e \<Rightarrow> []
           | Inr board2 \<Rightarrow>
               Write row col (str n) board2 # Recurse (Suc depth) board1 board2 #
               solve_events (Suc depth) board2 @
               (case solve_sudoku board2 of
                  (Inl e, board3) \<Rightarrow> []
                | (Inr True, board3) \<Rightarrow> []
                | (Inr False, board3) \<Rightarrow>
                    (case set_cell board3 row col [] of
                       Inl e \<Rightarrow> []
                     | Inr board4 \<Rightarrow> Write row col [] board4 # try_events depth board4 row col ns))))"
  by pat_completeness auto

termination solve_events
proof (relation "measures
    [\<lambda>x. case x of Inl (d, b) \<Rightarrow> empties b | Inr (d, b, i, j, ns) \<Rightarrow> rest b i j,
     \<lambda>x. case x of Inl (d, b) \<Rightarrow> 0 | Inr (d, b, i, j, ns) \<Rightarrow> Suc (length ns)]", goal_cases)
  case 1
  then show ?case by simp
next
  case (2 depth board b x2 row col)
  then show ?case
    using find_empty_Some [of board row col] by (auto dest: rest_less)
next
  case (3 depth board row col n ns x y b ba)
  then show ?case
    by (auto dest!: is_valid_board [OF sym] rest_set_cell)
next
  case (4 depth board row col n ns x y b ba xa ya bb bc)
  then show ?case
    using try_digits_restores(1) [of ba ya]
    by (auto dest!: is_valid_board [OF sym] dest: rest_reset rest_set_cell simp: rest_def set_cell_def split: option.splits)
next
  case (5 depth board row col n ns x y b)
  then show ?case
    by (auto dest!: is_valid_board [OF sym])
qed

declare solve_events.simps [simp del] try_events.simps(2) [simp del]

definition ev_ok :: "board \<Rightarrow> nat \<Rightarrow> event \<Rightarrow> bool" where
  "ev_ok b d e \<longleftrightarrow>
     (case e of
        Write r c v s \<Rightarrow>
          0 \<le> r \<and> r \<le> 8 \<and> 0 \<le> c \<and> c \<le> 8 \<and> b ! nat r ! nat c = [] \<and>
          (v = [] \<or> v \<in> set digit_chars) \<and> wf_board s \<and>
          (pw_consistent b \<longrightarrow> pw_consistent s)
      | Recurse d' caller callee \<Rightarrow>
          d < d' \<and> d' \<le> d + empties b \<and> empties callee < empties caller)"

lemma try_events_step:
  assumes wf: "wf_board b" and rc: "0 \<le> r" "r \<le> 8" "0 \<le> c" "c \<le> 8"
    and e: "b ! nat r ! nat c = []"
  shows "try_events d b r c (n # ns) =
     (if no_conflict b (nat r) (nat c) (str n)
      then Write r c (str n) (upd b (nat r) (nat c) (str n)) #
           Recurse (Suc d) b (upd b (nat r) (nat c) (str n)) #
           solve_events (Suc d) (upd b (nat r) (nat c) (str n)) @
           (if fst (solve_sudoku (upd b (nat r) (nat c) (str n))) = Inr True then []
            else Write r c [] b # try_events d b r c ns)
      else try_events d b r c ns)"
proof -
  from rc have nrc: "nat r < 9" "nat c < 9" by auto
  let ?b2 = "upd b (nat r) (nat c) (str n)"
  have wf2: "wf_board ?b2" by (rule wf_upd [OF wf])
  note v = is_valid_wf [OF wf rc, of "str n"]
  obtain res b3 where s: "solve_sudoku ?b2 = (res, b3)" by (cases "solve_sudoku ?b2")
  from solve_sudoku_good [OF wf2] s obtain ok where res: "res = Inr ok"
    by (cases res) (auto simp: good_def)
  have restore: "upd ?b2 (nat r) (nat c) [] = b"
    using upd_same [of "nat r" b "nat c" "[]"] nrc e wf by (simp add: wf_board_nth)
  show ?thesis
  proof (cases ok)
    case True
    with v s res show ?thesis
      by (simp add: try_events.simps(2) wf_set_cell [OF wf rc])
  next
    case False
    with solve_sudoku_good [OF wf2] s res have "b3 = ?b2" by (simp add: good_def)
    with v s res False restore show ?thesis
      by (simp add: try_events.simps(2) wf_set_cell [OF wf rc] wf_set_cell [OF wf2 rc])
  qed
qed

lemma ev_ok_lift:
  assumes wf: "wf_board b" and rc: "r < 9" "c < 9" and e: "b ! r ! c = []"
    and v: "v \<noteq> []" and nc: "no_conflict b r c v"
    and ok: "ev_ok (upd b r c v) (Suc d) ev"
  shows "ev_ok b d ev"
proof (cases ev)
  case (Write r' c' v' s)
  with ok have w: "0 \<le> r'" "r' \<le> 8" "0 \<le> c'" "c' \<le> 8" "upd b r c v ! nat r' ! nat c' = []"
    "v' = [] \<or> v' \<in> set digit_chars" "wf_board s"
    "pw_consistent (upd b r c v) \<longrightarrow> pw_consistent s"
    by (simp_all add: ev_ok_def)
  from w(5) v have "b ! nat r' ! nat c' = []"
    by (auto simp: wf_nth_upd [OF wf rc] split: if_splits)
  moreover from w(8) pw_consistent_upd [OF wf rc _ nc] have "pw_consistent b \<longrightarrow> pw_consistent s"
    by blast
  ultimately show ?thesis using Write w by (simp add: ev_ok_def)
next
  case (Recurse d' caller callee)
  from empties_upd_less [OF wf rc e v] have "Suc (empties (upd b r c v)) = empties b" .
  with ok Recurse show ?thesis by (auto simp: ev_ok_def)
qed

lemma try_events_ok:
  assumes wf: "wf_board b" and rc: "0 \<le> r" "r \<le> 8" "0 \<le> c" "c \<le> 8"
    and e: "b ! nat r ! nat c = []"
    and IH: "\<And>b2 d2. wf_board b2 \<Longrightarrow> empties b2 < empties b \<Longrightarrow>
               \<forall>ev\<in>set (solve_events d2 b2). ev_ok b2 d2 ev"
    and ns: "set ns \<subseteq> {1..9}"
  shows "\<forall>ev\<in>set (try_events d b r c ns). ev_ok b d ev"
  using ns
proof (induction ns)
  case Nil
  then show ?case by simp
next
  case (Cons n ns)
  from rc have nrc: "nat r < 9" "nat c < 9" by auto
  let ?b2 = "upd b (nat r) (nat c) (str n)"
  from Cons.prems have n: "1 \<le> n" "n \<le> 9" by simp_all
  from Cons have tail: "\<forall>ev\<in>set (try_events d b r c ns). ev_ok b d ev" by simp
  note step = try_events_step [OF wf rc e, of d n ns]
  show ?case
  proof (cases "no_conflict b (nat r) (nat c) (str n)")
    case False
    with step tail show ?thesis by simp
  next
    case True
    have wf2: "wf_board ?b2" by (rule wf_upd [OF wf])
    have less: "Suc (empties ?b2) = empties b"
      using empties_upd_less [OF wf nrc e, of "str n"] by simp
    then have "\<forall>ev\<in>set (solve_events (Suc d) ?b2). ev_ok ?b2 (Suc d) ev"
      by (intro IH [OF wf2]) simp
    then have nested: "\<forall>ev\<in>set (solve_events (Suc d) ?b2). ev_ok b d ev"
      using ev_ok_lift [OF wf nrc e _ True] by simp
    have w1: "ev_ok b d (Write r c (str n) ?b2)"
      using rc e wf2 str_in_digit_chars [OF n] pw_consistent_upd [OF wf nrc _ True]
      by (simp add: ev_ok_def)
    have w2: "ev_ok b d (Recurse (Suc d) b ?b2)"
      using less by (simp add: ev_ok_def)
    have w3: "ev_ok b d (Write r c [] b)"
      using rc e wf by (simp add: ev_ok_def)
    from step True nested w1 w2 w3 tail show ?thesis by auto
  qed
qed

lemma solve_events_ok: "wf_board b \<Longrightarrow> \<forall>ev\<in>set (solve_events d b). ev_ok b d ev"
proof (induction "empties b" arbitrary: b d rule: less_induct)
  case less
  show ?case
  proof (cases "first_empty b")
    case None
    with less.prems show ?thesis by (simp add: solve_events.simps find_empty_wf)
  next
    case (Some cell)
    obtain r c where cell: "cell = (r, c)" by (cases cell)
    with Some less.prems have fe: "find_empty b = Inr (Some (r, c))" by (simp add: find_empty_wf)
    from find_empty_Some_wf [OF less.prems fe]
    have rc: "0 \<le> r" "r \<le> 8" "0 \<le> c" "c \<le> 8" and e: "b ! nat r ! nat c = []" by simp_all
    have "\<forall>ev\<in>set (try_events d b r c [1..9]). ev_ok b d ev"
      by (rule try_events_ok [OF less.prems rc e]) (use less.hyps in auto)
    with fe show ?thesis by (simp add: solve_events.simps)
  qed
qed

lemma solve_events_full: "wf_board b \<Longrightarrow> full b \<Longrightarrow> solve_events d b = []"
  using find_empty_None_full [of b] by (simp add: solve_events.simps)

lemma solve_sudoku_full: "wf_board b \<Longrightarrow> full b \<Longrightarrow> solve_sudoku b = (Inr True, b)"
  using find_empty_None_full [of b] by (simp add: solve_sudoku.simps)

lemma sum_list_bounded: "(\<forall>x\<in>set xs. f x \<le> (k::nat)) \<Longrightarrow> sum_list (map f xs) \<le> length xs * k"
  by (induction xs) auto

lemma empties_le_81: "wf_board b \<Longrightarrow> empties b \<le> 81"
proof -
  assume wf: "wf_board b"
  have "\<forall>row\<in>set b. count_list row [] \<le> 9"
  proof
    fix row assume "row \<in> set b"
    with wf have "length row = 9" by (simp add: wf_board_def)
    with count_le_length [of row "[]"] show "count_list row [] \<le> 9" by simp
  qed
  from sum_list_bounded [OF this] wf show ?thesis by (simp add: empties_def wf_board_def)
qed

section \<open>Completions and example boards\<close>

text \<open>
  A board \<open>has_completion\<close> when some solved board keeps all its filled cells;
  \<open>givens_digits\<close> says that every filled cell holds one of the digit characters.
  \<open>clash_board\<close> is the solved grid with a second '5' written into its first row,
  \<open>dead_board\<close> a consistent grid whose empty cell (0, 8) has no digit left, and
  \<open>ones_board\<close> the grid that holds '1' everywhere.
\<close>

definition has_completion :: "board \<Rightarrow> bool" where
  "has_completion b \<longleftrightarrow> (\<exists>s. solved s \<and> keeps_givens b s)"

definition givens_digits :: "board \<Rightarrow> bool" where
  "givens_digits b \<longleftrightarrow> (\<forall>row \<in> set b. \<forall>v \<in> set row. v = [] \<or> v \<in> set digit_chars)"

definition clash_board :: board where
  "clash_board = upd solved_board 0 1 ''5''"

definition dead_board :: board where
  "dead_board = upd (upd (upd solved_board 0 8 []) 1 2 []) 1 8 ''2''"

definition ones_board :: board where
  "ones_board = replicate 9 (replicate 9 ''1'')"

lemma givens_digits_nth:
  "wf_board b \<Longrightarrow> givens_digits b \<longleftrightarrow> (\<forall>i<9. \<forall>j<9. b ! i ! j = [] \<or> b ! i ! j \<in> set digit_chars)"
  by (simp add: givens_digits_def wf_board_nth all_set_conv_all_nth)

lemma fills_keeps: "fills b b' \<Longrightarrow> keeps_givens b b'"
  unfolding fills_def keeps_givens_nth by (metis (full_types))

lemma keeps_givens_pw:
  assumes k: "keeps_givens b s" and pw: "pw_consistent s"
  shows "pw_consistent b"
  unfolding pw_consistent_def
proof (intro allI impI, elim conjE)
  fix i j i' j' :: nat
  assume r: "i < 9" "j < 9" "i' < 9" "j' < 9" and ne: "(i, j) \<noteq> (i', j')"
    and p: "peers (i, j) (i', j')" and v: "b ! i ! j \<noteq> []"
  show "b ! i ! j \<noteq> b ! i' ! j'"
  proof (cases "b ! i' ! j' = []")
    case True
    with v show ?thesis by simp
  next
    case False
    with k r v have "s ! i ! j = b ! i ! j" "s ! i' ! j' = b ! i' ! j'"
      by (simp_all add: keeps_givens_nth)
    moreover from v \<open>s ! i ! j = b ! i ! j\<close> have "s ! i ! j \<noteq> []" by simp
    with pw r ne p have "s ! i ! j \<noteq> s ! i' ! j'"
      unfolding pw_consistent_def by blast
    ultimately show ?thesis by simp
  qed
qed

lemma fills_digits:
  "givens_digits b \<Longrightarrow> wf_board b \<Longrightarrow> fills b b' \<Longrightarrow> \<forall>i<9. \<forall>j<9. b' ! i ! j \<in> set digit_chars"
  unfolding fills_def by (simp add: givens_digits_nth) metis

lemma solve_true_solved:
  assumes wf: "wf_board b" and c: "consistent b" and g: "givens_digits b"
    and t: "solve_sudoku b = (Inr True, b')"
  shows "solved b' \<and> keeps_givens b b'"
proof -
  from solve_sudoku_good [OF wf] t have g': "wf_board b'" "fills b b'" "pw_consistent b \<longrightarrow> pw_consistent b'"
    by (simp_all add: good_def)
  with c have "pw_consistent b'" by (simp add: consistent_pw)
  with g' fills_digits [OF g wf g'(2)] show ?thesis
    by (simp add: solved_iff fills_keeps)
qed

lemma completion_consistent:
  assumes s: "solved s" and k: "keeps_givens b s" and wf: "wf_board b"
  shows "consistent b \<and> givens_digits b"
proof -
  from s have pw: "pw_consistent s" and d: "\<forall>i<9. \<forall>j<9. s ! i ! j \<in> set digit_chars"
    by (simp_all add: solved_iff)
  from keeps_givens_pw [OF k pw] have "consistent b" by (simp add: consistent_pw)
  moreover have "\<forall>i<9. \<forall>j<9. b ! i ! j = [] \<or> b ! i ! j \<in> set digit_chars"
    using k d unfolding keeps_givens_nth by metis
  ultimately show ?thesis by (simp add: givens_digits_nth [OF wf])
qed

lemma solve_result:
  "wf_board b \<Longrightarrow> \<exists>ok b'. solve_sudoku b = (Inr ok, b') \<and> (\<not> ok \<longrightarrow> b' = b)"
proof -
  assume wf: "wf_board b"
  obtain res b' where s: "solve_sudoku b = (res, b')" by (cases "solve_sudoku b")
  with solve_sudoku_good [OF wf] obtain ok where "res = Inr ok" by (cases res) (auto simp: good_def)
  with solve_sudoku_good [OF wf] s show ?thesis by (cases ok) (auto simp: good_def)
qed

lemma wf_example_boards:
  "wf_board clash_board" "wf_board dead_board" "wf_board ones_board"
  by (simp_all add: clash_board_def dead_board_def wf_upd wf_solved_board)
     (simp add: ones_board_def wf_board_def)

lemma keeps_givens_refl: "keeps_givens b b"
  by (simp add: keeps_givens_nth)

lemma keeps_givens_clear:
  "wf_board b \<Longrightarrow> r < 9 \<Longrightarrow> c < 9 \<Longrightarrow> keeps_givens b s \<Longrightarrow> keeps_givens (upd b r c []) s"
  unfolding keeps_givens_nth by (simp add: wf_nth_upd)

lemma puzzle_keeps: "keeps_givens puzzle_board solved_board"
  unfolding puzzle_board_def
  by (intro keeps_givens_clear wf_upd wf_solved_board keeps_givens_refl) simp_all

lemma puzzle_run: "solve_sudoku puzzle_board = (Inr True, solved_board)"
  by code_simp

lemma puzzle_events:
  "solve_events 0 puzzle_board =
     [Write 0 2 ''4'' (upd puzzle_board 0 2 ''4''),
      Recurse 1 puzzle_board (upd puzzle_board 0 2 ''4''),
      Write 4 4 ''5'' solved_board,
      Recurse 2 (upd puzzle_board 0 2 ''4'') solved_board]"
  by code_simp

lemma solved_solved_board: "solved solved_board"
  by code_simp

lemma consistent_puzzle_board: "consistent puzzle_board"
  by code_simp

lemma dead_board_no_candidate: "\<forall>d\<in>set digit_chars. \<not> no_conflict dead_board 0 8 d"
  by code_simp

lemma dead_board_facts: "consistent dead_board" "givens_digits dead_board" "dead_board ! 0 ! 8 = []"
  by code_simp+

lemma dead_board_no_completion: "\<not> has_completion dead_board"
proof
  assume "has_completion dead_board"
  then obtain s where s: "solved s" "keeps_givens dead_board s"
    by (auto simp: has_completion_def)
  have "(0::nat) < 9" "(8::nat) < 9" by simp_all
  from completion_cell [OF this dead_board_facts(3) s] dead_board_no_candidate
  show False by blast
qed

lemma clash_board_cells: "clash_board ! 0 ! 0 = ''5''" "clash_board ! 0 ! 1 = ''5''" "full clash_board"
  by code_simp+

lemma clash_board_no_completion: "\<not> has_completion clash_board"
proof
  assume "has_completion clash_board"
  then obtain s where s: "solved s" "keeps_givens clash_board s"
    by (auto simp: has_completion_def)
  have k: "s ! i ! j = clash_board ! i ! j" if "i < 9" "j < 9" "clash_board ! i ! j \<noteq> []" for i j
    using s(2) that by (simp add: keeps_givens_nth)
  from k [of 0 0] clash_board_cells(1) have a: "s ! 0 ! 0 = ''5''" by simp
  from k [of 0 1] clash_board_cells(2) have b: "s ! 0 ! 1 = ''5''" by simp
  from s(1) have "pw_consistent s" by (simp add: solved_iff)
  then have "s ! i ! j \<noteq> s ! i' ! j'"
    if "i < 9" "j < 9" "i' < 9" "j' < 9" "(i, j) \<noteq> (i', j')" "peers (i, j) (i', j')" "s ! i ! j \<noteq> []"
    for i j i' j'
    using that unfolding pw_consistent_def by blast
  from this [of 0 0 0 1] a b show False by (simp add: peers_def)
qed

section \<open>The recorded events are the run\<close>

text \<open>
  Replaying the events of \<open>solve_events\<close> from the input board, every \<open>Write\<close> is one
  cell assignment on the board as it stands, every \<open>Recurse\<close> is on the board as it
  stands, and the board reached at the end is the board \<open>solve_sudoku\<close> leaves.
\<close>

fun replay :: "board \<Rightarrow> event list \<Rightarrow> board option" where
  "replay cur [] = Some cur"
| "replay cur (Write row col v board' # evs) =
     (if set_cell cur row col v = Inr board' then replay board' evs else None)"
| "replay cur (Recurse d caller callee # evs) =
     (if callee = cur then replay cur evs else None)"

lemma replay_append:
  "replay cur (xs @ ys) = (case replay cur xs of None \<Rightarrow> None | Some s \<Rightarrow> replay s ys)"
proof (induction xs arbitrary: cur)
  case Nil
  then show ?case by simp
next
  case (Cons e xs)
  then show ?case by (cases e) simp_all
qed

lemma try_events_replay:
  assumes wf: "wf_board b" and rc: "0 \<le> r" "r \<le> 8" "0 \<le> c" "c \<le> 8"
    and e: "b ! nat r ! nat c = []"
    and IH: "\<And>b2 d2. wf_board b2 \<Longrightarrow> empties b2 < empties b \<Longrightarrow>
               replay b2 (solve_events d2 b2) = Some (snd (solve_sudoku b2))"
  shows "replay b (try_events d b r c ns) = Some (snd (try_digits b r c ns))"
proof (induction ns)
  case Nil
  then show ?case by simp
next
  case (Cons n ns)
  from rc have nrc: "nat r < 9" "nat c < 9" by auto
  let ?b2 = "upd b (nat r) (nat c) (str n)"
  note ev = try_events_step [OF wf rc e, of d n ns]
  note st = try_digits_step [OF wf rc e, of n ns]
  show ?case
  proof (cases "no_conflict b (nat r) (nat c) (str n)")
    case False
    with ev st Cons show ?thesis by simp
  next
    case True
    have wf2: "wf_board ?b2" by (rule wf_upd [OF wf])
    have "empties ?b2 < empties b"
      using empties_upd_less [OF wf nrc e, of "str n"] by simp
    from IH [OF wf2 this] have nested:
      "replay ?b2 (solve_events (Suc d) ?b2) = Some (snd (solve_sudoku ?b2))" .
    have restore: "upd ?b2 (nat r) (nat c) [] = b"
      using upd_same [of "nat r" b "nat c" "[]"] nrc e wf by (simp add: wf_board_nth)
    show ?thesis
    proof (cases "fst (solve_sudoku ?b2) = Inr True")
      case t: True
      with ev st True nested show ?thesis
        by (simp add: Let_def replay_append wf_set_cell [OF wf rc])
    next
      case f: False
      from solve_result [OF wf2] f have "snd (solve_sudoku ?b2) = ?b2" by auto
      with ev st True f nested restore Cons show ?thesis
        by (simp add: Let_def replay_append wf_set_cell [OF wf rc] wf_set_cell [OF wf2 rc])
    qed
  qed
qed

lemma solve_events_replay:
  "wf_board b \<Longrightarrow> replay b (solve_events d b) = Some (snd (solve_sudoku b))"
proof (induction "empties b" arbitrary: b d rule: less_induct)
  case less
  show ?case
  proof (cases "first_empty b")
    case None
    with less.prems show ?thesis
      by (simp add: solve_events.simps solve_sudoku.simps find_empty_wf)
  next
    case (Some cell)
    obtain r c where cell: "cell = (r, c)" by (cases cell)
    with Some less.prems have fe: "find_empty b = Inr (Some (r, c))" by (simp add: find_empty_wf)
    from find_empty_Some_wf [OF less.prems fe]
    have rc: "0 \<le> r" "r \<le> 8" "0 \<le> c" "c \<le> 8" and e: "b ! nat r ! nat c = []" by simp_all
    have "replay b (try_events d b r c [1..9]) = Some (snd (try_digits b r c [1..9]))"
      by (rule try_events_replay [OF less.prems rc e]) (use less.hyps in auto)
    with fe show ?thesis by (simp add: solve_events.simps solve_sudoku.simps)
  qed
qed

section \<open>The deepest call of a successful run\<close>

text \<open>
  A run that returns true from a board with \<open>k > 0\<close> empty cells makes a recursive call
  nested \<open>k\<close> deep: every level fills one cell. On the blank board the run succeeds, so a
  call at depth 81 occurs there (with the initial call, 82 activations of
  \<open>solve_sudoku\<close> at once).
\<close>

definition blank_board :: board where
  "blank_board = replicate 9 (replicate 9 [])"

lemma full_empties: "full b \<Longrightarrow> empties b = 0"
  by (simp add: full_def empties_def)

lemma try_events_deepest:
  assumes wf: "wf_board b" and rc: "0 \<le> r" "r \<le> 8" "0 \<le> c" "c \<le> 8"
    and e: "b ! nat r ! nat c = []"
    and IH: "\<And>b2 d2. wf_board b2 \<Longrightarrow> empties b2 < empties b \<Longrightarrow>
               fst (solve_sudoku b2) = Inr True \<Longrightarrow> empties b2 \<noteq> 0 \<Longrightarrow>
               \<exists>caller callee. Recurse (d2 + empties b2) caller callee \<in> set (solve_events d2 b2)"
  shows "fst (try_digits b r c ns) = Inr True \<Longrightarrow>
         \<exists>caller callee. Recurse (d + empties b) caller callee \<in> set (try_events d b r c ns)"
proof (induction ns)
  case Nil
  then show ?case by simp
next
  case (Cons n ns)
  from rc have nrc: "nat r < 9" "nat c < 9" by auto
  let ?b2 = "upd b (nat r) (nat c) (str n)"
  note ev = try_events_step [OF wf rc e, of d n ns]
  note st = try_digits_step [OF wf rc e, of n ns]
  show ?case
  proof (cases "no_conflict b (nat r) (nat c) (str n) \<and> fst (solve_sudoku ?b2) = Inr True")
    case False
    with st Cons.prems have "fst (try_digits b r c ns) = Inr True"
      by (auto simp: Let_def split: if_splits)
    from Cons.IH [OF this] False ev show ?thesis by auto
  next
    case True
    have wf2: "wf_board ?b2" by (rule wf_upd [OF wf])
    have less: "Suc (empties ?b2) = empties b"
      using empties_upd_less [OF wf nrc e, of "str n"] by simp
    show ?thesis
    proof (cases "empties ?b2 = 0")
      case z: True
      with less have "d + empties b = Suc d" by simp
      with ev True show ?thesis by auto
    next
      case nz: False
      from less have "empties ?b2 < empties b" and eq: "Suc d + empties ?b2 = d + empties b"
        by simp_all
      from IH [OF wf2 this(1) _ nz, of "Suc d"] True
      have "\<exists>caller callee. Recurse (Suc d + empties ?b2) caller callee \<in> set (solve_events (Suc d) ?b2)"
        by simp
      then have "\<exists>caller callee. Recurse (d + empties b) caller callee \<in> set (solve_events (Suc d) ?b2)"
        unfolding eq .
      with ev True show ?thesis by auto
    qed
  qed
qed

lemma solve_events_deepest:
  "wf_board b \<Longrightarrow> fst (solve_sudoku b) = Inr True \<Longrightarrow> empties b \<noteq> 0 \<Longrightarrow>
   \<exists>caller callee. Recurse (d + empties b) caller callee \<in> set (solve_events d b)"
proof (induction "empties b" arbitrary: b d rule: less_induct)
  case less
  show ?case
  proof (cases "first_empty b")
    case None
    with less.prems(1) have "full b" by (simp add: first_empty_None)
    with less.prems(3) show ?thesis by (simp add: full_empties)
  next
    case (Some cell)
    obtain r c where cell: "cell = (r, c)" by (cases cell)
    with Some less.prems have fe: "find_empty b = Inr (Some (r, c))" by (simp add: find_empty_wf)
    from find_empty_Some_wf [OF less.prems(1) fe]
    have rc: "0 \<le> r" "r \<le> 8" "0 \<le> c" "c \<le> 8" and e: "b ! nat r ! nat c = []" by simp_all
    from fe less.prems(2) have t: "fst (try_digits b r c [1..9]) = Inr True"
      by (simp add: solve_sudoku.simps)
    have "\<exists>caller callee. Recurse (d + empties b) caller callee \<in> set (try_events d b r c [1..9])"
      by (rule try_events_deepest [OF less.prems(1) rc e _ t]) (use less.hyps in auto)
    with fe show ?thesis by (simp add: solve_events.simps)
  qed
qed

lemma blank_board_facts: "wf_board blank_board" "empties blank_board = 81"
  by code_simp+

lemma blank_board_keeps: "keeps_givens blank_board s"
proof -
  have "blank_board ! i ! j = []" if "i < 9" "j < 9" for i j
    using that by (simp add: blank_board_def)
  then show ?thesis by (simp add: keeps_givens_nth)
qed

lemma blank_board_depth:
  "fst (solve_sudoku blank_board) = Inr True \<and>
   (\<exists>caller callee. Recurse 81 caller callee \<in> set (solve_events 0 blank_board))"
proof -
  from solve_sudoku_complete [OF blank_board_facts(1) solved_solved_board blank_board_keeps]
  have t: "fst (solve_sudoku blank_board) = Inr True" .
  from solve_events_deepest [OF blank_board_facts(1) t, of 0] blank_board_facts(2) t
  show ?thesis by simp
qed

section \<open>Runs that return false\<close>

text \<open>
  Whenever a call on a 9x9 board returns false the board is as the call found it; and a
  call returns false when the filled cells are digits, consistent, and without a
  completion, as on \<open>dead_board\<close>.
\<close>

lemma solve_sudoku_false_unchanged:
  assumes "wf_board b"
  shows "(fst (solve_sudoku b) = Inr False \<longrightarrow> snd (solve_sudoku b) = b) \<and>
         (consistent b \<and> givens_digits b \<and> \<not> has_completion b \<longrightarrow> solve_sudoku b = (Inr False, b))"
proof -
  from solve_result [OF assms] obtain ok b' where
    r: "solve_sudoku b = (Inr ok, b')" "\<not> ok \<longrightarrow> b' = b" by blast
  have "\<not> ok" if "consistent b" "givens_digits b" "\<not> has_completion b"
  proof
    assume ok
    with r have "solve_sudoku b = (Inr True, b')" by simp
    from solve_true_solved [OF assms that(1,2) this] that(3) show False
      by (auto simp: has_completion_def)
  qed
  with r show ?thesis by auto
qed

lemma solve_sudoku_false_on_dead_board:
  "wf_board dead_board \<and> consistent dead_board \<and> givens_digits dead_board \<and>
   \<not> has_completion dead_board \<and> solve_sudoku dead_board = (Inr False, dead_board)"
  using solve_sudoku_false_unchanged [OF wf_example_boards(2)]
  by (simp add: wf_example_boards dead_board_facts dead_board_no_completion)

section \<open>The claims\<close>

text \<open>
  The theorems below speak of 9x9 boards (\<open>wf_board\<close>); on these no read or write of the
  solver is out of range, so no call raises. The recursion of \<open>solve_sudoku\<close> is
  well-founded on every board (its termination proof above descends along the number of
  empty cells), and it nests at most 81 calls deep, far below the recursion limit of the
  interpreter, which the model therefore leaves out.
\<close>

text \<open>
  C1: for every 9x9 board that has a valid completion (a solved board that keeps all its
  given digits; the givens of such a board are mutually consistent), \<open>solve_sudoku\<close> returns
  true and the board it leaves is solved: every row, every column and every 3x3 box
  contains each digit '1'..'9' exactly once, with all originally given digits still in
  place.
\<close>

theorem solve_sudoku_solves:
  assumes "wf_board b" "solved s" "keeps_givens b s"
  shows "fst (solve_sudoku b) = Inr True \<and> solved (snd (solve_sudoku b)) \<and>
         keeps_givens b (snd (solve_sudoku b))"
proof -
  from solve_sudoku_complete [OF assms] obtain b' where t: "solve_sudoku b = (Inr True, b')"
    by (cases "solve_sudoku b") simp
  from completion_consistent [OF assms(2,3,1)] solve_true_solved [OF assms(1) _ _ t] t
  show ?thesis by simp
qed

theorem solve_sudoku_solves_witness:
  "wf_board puzzle_board \<and> solved solved_board \<and> keeps_givens puzzle_board solved_board \<and>
   solve_sudoku puzzle_board = (Inr True, solved_board) \<and> solved (snd (solve_sudoku puzzle_board))"
  using solve_sudoku_solves [OF wf_puzzle_board solved_solved_board puzzle_keeps]
  by (simp add: wf_puzzle_board solved_solved_board puzzle_keeps puzzle_run)

text \<open>
  C2, which the code does not meet: the claim is that on every 9x9 board with no valid
  completion \<open>solve_sudoku\<close> returns false and leaves every cell at its pre-call value.
  The docstring of \<open>solve_sudoku\<close> says the same of its result ("True if a valid solution
  was found, False otherwise"), and the comment on its first return reads "puzzle is
  solved". But the only test before that return is that no cell is empty: the given cells
  are never checked against each other. On \<open>clash_board\<close>, a full 9x9 board of digits
  with two '5' in row 0 (every cell a single digit, as the entry fields allow), there is
  no valid completion and the board is not solved, yet the call returns true and hands
  the board back as the solution. The theorem evaluates the code on that board.
\<close>

theorem solve_sudoku_true_on_clash_board:
  "wf_board clash_board \<and> givens_digits clash_board \<and> \<not> has_completion clash_board \<and>
   \<not> solved clash_board \<and> solve_sudoku clash_board = (Inr True, clash_board)"
proof -
  have "givens_digits clash_board" "\<not> solved clash_board" by code_simp+
  then show ?thesis
    by (simp add: wf_example_boards clash_board_no_completion solve_sudoku_full clash_board_cells)
qed

theorem solve_sudoku_true_on_clash_board_witness:
  "fst (solve_sudoku clash_board) = Inr True \<and> snd (solve_sudoku clash_board) = clash_board"
  using solve_sudoku_true_on_clash_board by simp

text \<open>
  C3, as amended: on a 9x9 board, for row and column in 0..8, \<open>is_valid\<close> returns true if
  and only if the cell (row, col) itself does not hold the digit and no other cell of the
  same row, of the same column and of the 3x3 box with origin (row div 3 * 3, col div 3 * 3)
  holds it. The scan of the source does not skip the cell (row, col): on a cell that
  already holds the digit the answer is false, which is the counterexample below to the
  claim as it was stated ("no cell other than (row, col)").
\<close>

theorem is_valid_iff:
  assumes "wf_board b" "0 \<le> row" "row \<le> 8" "0 \<le> col" "col \<le> 8"
  shows "fst (is_valid b row col d) =
           Inr (b ! nat row ! nat col \<noteq> d \<and> no_other_conflict b (nat row) (nat col) d)"
proof -
  from assms have "nat row < 9" "nat col < 9" by auto
  from no_conflict_others [OF this] is_valid_wf [OF assms] show ?thesis by simp
qed

theorem is_valid_iff_witness:
  "wf_board puzzle_board \<and> (0::int) \<le> 4 \<and> (4::int) \<le> 8 \<and>
   fst (is_valid puzzle_board 4 4 ''5'') = Inr True \<and>
   fst (is_valid puzzle_board 4 4 ''3'') = Inr False"
proof -
  have "no_other_conflict puzzle_board 4 4 ''5''" "\<not> no_other_conflict puzzle_board 4 4 ''3''"
    by code_simp+
  moreover have "puzzle_board ! 4 ! 4 = []" by (simp add: puzzle_board_eq)
  ultimately show ?thesis
    using is_valid_iff [OF wf_puzzle_board, of 4 4 "''5''"] is_valid_iff [OF wf_puzzle_board, of 4 4 "''3''"]
    by (simp add: wf_puzzle_board)
qed

theorem is_valid_others_counterexample:
  "wf_board solved_board \<and> fst (is_valid solved_board 0 0 ''5'') = Inr False \<and>
   no_other_conflict solved_board 0 0 ''5''"
proof -
  have "no_other_conflict solved_board 0 0 ''5''"
    by code_simp
  moreover have "\<not> no_conflict solved_board 0 0 ''5''"
    by code_simp
  ultimately show ?thesis
    using is_valid_wf [OF wf_solved_board, of 0 0 "''5''"] by (simp add: wf_solved_board)
qed

text \<open>
  C4: on every 9x9 board \<open>solve_sudoku\<close> returns (a boolean, no exception); the board has
  at most 81 empty cells; every recursive call of the run is nested at most as deep as the
  board has empty cells, hence at most 81 deep (depth counts the recursive calls below the
  initial call, which has depth 0; \<open>blank_board_depth\<close> shows that depth 81 occurs); and
  each recursive call is made on a board with strictly fewer empty cells than the board of
  the call that makes it.
\<close>

theorem solve_sudoku_depth:
  assumes "wf_board b"
  shows "(\<exists>ok b'. solve_sudoku b = (Inr ok, b')) \<and> empties b \<le> 81 \<and>
         (\<forall>d caller callee. Recurse d caller callee \<in> set (solve_events 0 b) \<longrightarrow>
            d \<le> empties b \<and> empties callee < empties caller)"
proof -
  have "d \<le> empties b \<and> empties callee < empties caller"
    if "Recurse d caller callee \<in> set (solve_events 0 b)" for d caller callee
    using solve_events_ok [OF assms, of 0] that by (force simp: ev_ok_def)
  with solve_result [OF assms] empties_le_81 [OF assms] show ?thesis by blast
qed

theorem solve_sudoku_depth_witness:
  "wf_board puzzle_board \<and> empties puzzle_board = 2 \<and>
   solve_sudoku puzzle_board = (Inr True, solved_board) \<and>
   Recurse 2 (upd puzzle_board 0 2 ''4'') solved_board \<in> set (solve_events 0 puzzle_board) \<and>
   empties solved_board < empties (upd puzzle_board 0 2 ''4'')"
proof -
  have e: "empties puzzle_board = 2" by code_simp
  have m: "Recurse 2 (upd puzzle_board 0 2 ''4'') solved_board \<in> set (solve_events 0 puzzle_board)"
    by (simp add: puzzle_events)
  from solve_sudoku_depth [OF wf_puzzle_board] m
  have "empties solved_board < empties (upd puzzle_board 0 2 ''4'')" by blast
  with e m show ?thesis by (simp add: wf_puzzle_board puzzle_run)
qed

text \<open>
  C5: if the filled cells of the 9x9 input board are consistent (no duplicate value in any
  row, column or 3x3 box), then the board after every write of the run is consistent, and
  so is the board the call leaves; and every value written is a digit character '1'..'9'
  or the empty marker.
\<close>

theorem solve_sudoku_invariant:
  assumes "wf_board b" "consistent b"
  shows "(\<forall>row col v board'. Write row col v board' \<in> set (solve_events 0 b) \<longrightarrow>
            consistent board' \<and> (v = [] \<or> v \<in> set digit_chars)) \<and>
         consistent (snd (solve_sudoku b))"
proof -
  have "consistent board' \<and> (v = [] \<or> v \<in> set digit_chars)"
    if "Write row col v board' \<in> set (solve_events 0 b)" for row col v board'
    using solve_events_ok [OF assms(1), of 0] that assms(2)
    by (force simp: ev_ok_def consistent_pw)
  moreover have "consistent (snd (solve_sudoku b))"
  proof -
    obtain res b' where s: "solve_sudoku b = (res, b')" by (cases "solve_sudoku b")
    with solve_sudoku_good [OF assms(1)] obtain ok where "res = Inr ok"
      by (cases res) (auto simp: good_def)
    with solve_sudoku_good [OF assms(1)] s assms(2) show ?thesis
      by (cases ok) (auto simp: good_def consistent_pw)
  qed
  ultimately show ?thesis by blast
qed

theorem solve_sudoku_invariant_witness:
  "wf_board puzzle_board \<and> consistent puzzle_board \<and>
   Write 0 2 ''4'' (upd puzzle_board 0 2 ''4'') \<in> set (solve_events 0 puzzle_board) \<and>
   consistent (upd puzzle_board 0 2 ''4'') \<and> ''4'' \<in> set digit_chars \<and>
   consistent (snd (solve_sudoku puzzle_board))"
proof -
  have m: "Write 0 2 ''4'' (upd puzzle_board 0 2 ''4'') \<in> set (solve_events 0 puzzle_board)"
    by (simp add: puzzle_events)
  from solve_sudoku_invariant [OF wf_puzzle_board consistent_puzzle_board] m
  have "consistent (upd puzzle_board 0 2 ''4'') \<and> (''4'' = [] \<or> ''4'' \<in> set digit_chars)"
    and "consistent (snd (solve_sudoku puzzle_board))"
    by blast+
  with m show ?thesis by (simp add: wf_puzzle_board consistent_puzzle_board)
qed

text \<open>
  C6: on a 9x9 board \<open>find_empty\<close> returns the coordinate of the first cell in row-major
  order (rows 0..8, columns 0..8 within each row) that holds the empty marker, and it
  returns \<open>None\<close> exactly when no cell of the board holds the empty marker.
\<close>

theorem find_empty_first:
  "wf_board b \<Longrightarrow> find_empty b = Inr (first_empty b) \<and> (find_empty b = Inr None \<longleftrightarrow> full b)"
  by (simp add: find_empty_wf first_empty_None)

theorem find_empty_first_witness:
  "wf_board puzzle_board \<and> find_empty puzzle_board = Inr (Some (0, 2)) \<and> \<not> full puzzle_board"
proof -
  have f: "first_empty puzzle_board = Some (0, 2)"
    by code_simp
  from find_empty_first [OF wf_puzzle_board] f show ?thesis
    by (auto simp: wf_puzzle_board)
qed

text \<open>
  C7: on a solved 9x9 board \<open>solve_sudoku\<close> returns true, leaves the board as it is and
  performs no write and no recursive call; and whenever \<open>solve_sudoku\<close> has returned true
  on a 9x9 board, a second call on the board it left returns true, again with no write.
\<close>

theorem solve_sudoku_idempotent:
  assumes "wf_board b"
  shows "(solved b \<longrightarrow> solve_sudoku b = (Inr True, b) \<and> solve_events 0 b = []) \<and>
         (fst (solve_sudoku b) = Inr True \<longrightarrow>
            solve_sudoku (snd (solve_sudoku b)) = (Inr True, snd (solve_sudoku b)) \<and>
            solve_events 0 (snd (solve_sudoku b)) = [])"
proof -
  have "full b" if "solved b"
  proof -
    from that digit_chars_facts(3) have "\<forall>i<9. \<forall>j<9. b ! i ! j \<noteq> []"
      unfolding solved_iff by metis
    with assms show ?thesis by (simp add: full_nth)
  qed
  then have 1: "solved b \<longrightarrow> solve_sudoku b = (Inr True, b) \<and> solve_events 0 b = []"
    using assms by (simp add: solve_sudoku_full solve_events_full)
  have 2: "solve_sudoku (snd (solve_sudoku b)) = (Inr True, snd (solve_sudoku b)) \<and>
      solve_events 0 (snd (solve_sudoku b)) = []" if "fst (solve_sudoku b) = Inr True"
  proof -
    from that obtain b' where s: "solve_sudoku b = (Inr True, b')"
      by (cases "solve_sudoku b") simp
    with solve_sudoku_good [OF assms] have "wf_board b'" "full b'" by (simp_all add: good_def)
    with s show ?thesis by (simp add: solve_sudoku_full solve_events_full)
  qed
  from 1 2 show ?thesis by blast
qed

theorem solve_sudoku_idempotent_witness:
  "wf_board solved_board \<and> solved solved_board \<and>
   solve_sudoku solved_board = (Inr True, solved_board) \<and> solve_events 0 solved_board = [] \<and>
   wf_board puzzle_board \<and> solve_sudoku puzzle_board = (Inr True, solved_board)"
  using solve_sudoku_idempotent [OF wf_solved_board]
  by (simp add: wf_solved_board solved_solved_board wf_puzzle_board puzzle_run)

text \<open>
  C8: \<open>is_valid\<close> is side-effect-free. For every board, row, column and digit, the board
  that a call to \<open>is_valid\<close> leaves behind is the board it was given, cell for cell
  (also when the call raises \<^verbatim>\<open>IndexError\<close>).
\<close>

theorem is_valid_leaves_board: "snd (is_valid board row col digit) = board"
  by (rule is_valid_frame)

text \<open>
  C9: on every 9x9 board in which no cell holds the empty marker, \<open>solve_sudoku\<close> returns
  true and performs no write, whether or not the filled board obeys the Sudoku rules: on
  \<open>ones_board\<close>, which holds '1' in every cell, it returns true.
\<close>

theorem solve_sudoku_full_board:
  "wf_board b \<Longrightarrow> full b \<Longrightarrow> solve_sudoku b = (Inr True, b) \<and> solve_events 0 b = []"
  by (simp add: solve_sudoku_full solve_events_full)

theorem solve_sudoku_full_board_witness:
  "wf_board ones_board \<and> full ones_board \<and> \<not> consistent ones_board \<and> \<not> solved ones_board \<and>
   solve_sudoku ones_board = (Inr True, ones_board) \<and> solve_events 0 ones_board = []"
proof -
  have f: "full ones_board" "\<not> consistent ones_board" "\<not> solved ones_board" by code_simp+
  with solve_sudoku_full_board [OF wf_example_boards(3)] show ?thesis
    by (simp add: wf_example_boards)
qed

text \<open>
  C10: on every 9x9 board, every cell that is filled when \<open>solve_sudoku\<close> is called holds
  the same value when the call returns, whatever it returns; and every write of the run
  goes to a cell that is empty in the board the call was given.
\<close>

theorem solve_sudoku_keeps_givens:
  assumes "wf_board b"
  shows "keeps_givens b (snd (solve_sudoku b)) \<and>
         (\<forall>row col v board'. Write row col v board' \<in> set (solve_events 0 b) \<longrightarrow>
            0 \<le> row \<and> row \<le> 8 \<and> 0 \<le> col \<and> col \<le> 8 \<and> b ! nat row ! nat col = [])"
proof -
  have "keeps_givens b (snd (solve_sudoku b))"
  proof -
    obtain res b' where s: "solve_sudoku b = (res, b')" by (cases "solve_sudoku b")
    with solve_sudoku_good [OF assms] obtain ok where "res = Inr ok"
      by (cases res) (auto simp: good_def)
    with solve_sudoku_good [OF assms] s show ?thesis
      by (cases ok) (auto simp: good_def fills_keeps keeps_givens_refl)
  qed
  moreover have "0 \<le> row \<and> row \<le> 8 \<and> 0 \<le> col \<and> col \<le> 8 \<and> b ! nat row ! nat col = []"
    if "Write row col v board' \<in> set (solve_events 0 b)" for row col v board'
    using solve_events_ok [OF assms, of 0] that by (force simp: ev_ok_def)
  ultimately show ?thesis by blast
qed

theorem solve_sudoku_keeps_givens_witness:
  "wf_board puzzle_board \<and> keeps_givens puzzle_board (snd (solve_sudoku puzzle_board)) \<and>
   wf_board dead_board \<and> keeps_givens dead_board (snd (solve_sudoku dead_board)) \<and>
   Write 4 4 ''5'' solved_board \<in> set (solve_events 0 puzzle_board) \<and>
   puzzle_board ! 4 ! 4 = []"
proof -
  have m: "Write 4 4 ''5'' solved_board \<in> set (solve_events 0 puzzle_board)"
    by (simp add: puzzle_events)
  from solve_sudoku_keeps_givens [OF wf_puzzle_board] m
  have "keeps_givens puzzle_board (snd (solve_sudoku puzzle_board))"
    and "puzzle_board ! nat 4 ! nat 4 = []" by blast+
  with m solve_sudoku_keeps_givens [OF wf_example_boards(2)] show ?thesis
    by (simp add: wf_puzzle_board wf_example_boards)
qed

end
